theory Spec2Isabelle
  imports Complex_Main "HOL-Library.Multiset" "HOL-Library.AList" "HOL-Library.Char_ord"
    "HOL-Library.List_Lexorder"
begin

section \<open>Tables\<close>

text \<open>
  The notebooks hold their data in data frames whose numeric columns are 64-bit floats.
  A float cell is either missing (NaN) or a finite number; every finite float is a
  rational, and the comparisons the code makes on cells are exact, so a cell carries a
  rational. Where the code does arithmetic on cells (a mean, a division by 12) the model
  computes in the rationals, without the rounding of the floating-point unit.

  A row carries its index label (the frame's index survives every boolean filter) and
  its cells by column name. A frame is its column names and its rows, in order. The frames
  of the pipeline are read from the files that the converter writes, which have every
  column of the mapping, so the columns that the notebook selects by name are there; the
  model reads a cell that a row does not have as missing.
\<close>

datatype cell = NaN | Num rat

record row =
  idx :: nat
  cells :: "(string \<times> cell) list"

record dataframe =
  columns :: "string list"
  rows :: "row list"

definition cell_at :: "row \<Rightarrow> string \<Rightarrow> cell" where
  "cell_at r c = (case map_of (cells r) c of Some v \<Rightarrow> v | None \<Rightarrow> NaN)"

text \<open>
  The exceptions of the library calls that the model follows: the KeyError of a join on a
  column that a frame lacks, and the ValueErrors of the splitter (an empty train set, a
  class with fewer than 2 members, a train or test size below the number of classes, a
  stratification column of another length than the table) and of the row writer (a key
  outside the field names), one constructor for each message.
\<close>

datatype error =
    KeyError
  | Empty_train_set
  | Least_populated_class
  | Train_size_below_classes
  | Test_size_below_classes
  | Inconsistent_lengths
  | Extra_fields

text \<open>A frame built from a list of rows' cells has the positions as index.\<close>

definition reindex :: "(string \<times> cell) list list \<Rightarrow> row list" where
  "reindex cs = map (\<lambda>(i, d). \<lparr>idx = i, cells = d\<rparr>) (enumerate 0 cs)"

text \<open>Comparisons of a float cell with a number: every comparison with NaN is False.\<close>

fun cell_lt :: "cell \<Rightarrow> rat \<Rightarrow> bool" where
  "cell_lt NaN m = False"
| "cell_lt (Num x) m = (x < m)"

fun cell_gt :: "cell \<Rightarrow> rat \<Rightarrow> bool" where
  "cell_gt NaN m = False"
| "cell_gt (Num x) m = (x > m)"

fun cell_ge :: "cell \<Rightarrow> rat \<Rightarrow> bool" where
  "cell_ge NaN m = False"
| "cell_ge (Num x) m = (x \<ge> m)"

fun cell_le :: "cell \<Rightarrow> rat \<Rightarrow> bool" where
  "cell_le NaN m = False"
| "cell_le (Num x) m = (x \<le> m)"

text \<open>\<open>series / 12\<close>: NaN stays NaN.\<close>

fun cell_div :: "cell \<Rightarrow> rat \<Rightarrow> cell" where
  "cell_div NaN d = NaN"
| "cell_div (Num x) d = Num (x / d)"

section \<open>Age bands\<close>

text \<open>
  \<open>pd.cut(x, bins, labels, right=False)\<close>: the value falls into the first interval
  \<open>[bins[i], bins[i+1])\<close> that holds it and gets that interval's label; a value in no
  interval, or a missing value, gets no label (a missing category). The bin edges
  increase and there is one label per interval.
\<close>

fun cut :: "rat list \<Rightarrow> string list \<Rightarrow> cell \<Rightarrow> string option" where
  "cut (lo # hi # bins) (l # labels) (Num x) =
     (if lo \<le> x \<and> x < hi then Some l else cut (hi # bins) labels (Num x))"
| "cut _ _ _ = None"

definition age_bins :: "rat list" where
  "age_bins = [16, 26, 36, 46, 56, 65]"

definition age_labels :: "string list" where
  "age_labels = [''16-26'', ''26-36'', ''36-46'', ''46-56'', ''56-65'']"

definition age_group_of :: "row \<Rightarrow> string option" where
  "age_group_of r = cut age_bins age_labels (cell_div (cell_at r ''age_in_months'') 12)"

text \<open>The bands the bin edges and labels describe: label, lower edge, upper edge.\<close>

definition age_bands :: "(string \<times> rat \<times> rat) list" where
  "age_bands = zip age_labels (zip age_bins (tl age_bins))"

definition in_band :: "rat \<Rightarrow> string \<times> rat \<times> rat \<Rightarrow> bool" where
  "in_band a b = (fst (snd b) \<le> a \<and> a < snd (snd b))"

definition band_width :: "string \<times> rat \<times> rat \<Rightarrow> rat" where
  "band_width b = snd (snd b) - fst (snd b)"

section \<open>Range validation\<close>

text \<open>
  \<open>filter_unrealistic_values(df, valid_ranges)\<close> walks the items of the range table in
  order. For a column the frame has, it counts the rows of the current frame whose value
  is below the minimum or above the maximum, prints a warning with that count when it is
  positive, and keeps the rows whose value is at least the minimum and at most the maximum.
  The model returns the printed warnings, in order, and the final frame.
\<close>

type_synonym ranges = "(string \<times> rat \<times> rat) list"

datatype warning = Warning nat string

definition invalid_mask :: "string \<Rightarrow> rat \<Rightarrow> rat \<Rightarrow> row \<Rightarrow> bool" where
  "invalid_mask column min_val max_val r =
     (cell_lt (cell_at r column) min_val \<or> cell_gt (cell_at r column) max_val)"

definition keep_mask :: "string \<Rightarrow> rat \<Rightarrow> rat \<Rightarrow> row \<Rightarrow> bool" where
  "keep_mask column min_val max_val r =
     (cell_ge (cell_at r column) min_val \<and> cell_le (cell_at r column) max_val)"

fun filter_unrealistic_values :: "dataframe \<Rightarrow> ranges \<Rightarrow> warning list \<times> dataframe" where
  "filter_unrealistic_values df [] = ([], df)"
| "filter_unrealistic_values df ((column, min_val, max_val) # rest) =
     (if column \<in> set (columns df) then
        (let invalid_count = length (filter (invalid_mask column min_val max_val) (rows df));
             printed = (if invalid_count > 0 then [Warning invalid_count column] else []);
             df' = df\<lparr>rows := filter (keep_mask column min_val max_val) (rows df)\<rparr>;
             res = filter_unrealistic_values df' rest
         in (printed @ fst res, snd res))
      else filter_unrealistic_values df rest)"

definition valid_ranges :: ranges where
  "valid_ranges =
     [(''weight'', 30, 300),
      (''height'', 100, 250),
      (''bmi'', 10, 60),
      (''upper_leg_length'', 30, 100),
      (''maximal_calf_circumference'', 20, 60),
      (''upper_arm_length'', 20, 50),
      (''arm_circumference'', 15, 60),
      (''waist_circumference'', 50, 200),
      (''thigh_circumference'', 30, 90)]"

text \<open>
  The frame the loop holds when it reaches item \<open>k\<close> of the range table, and the rows
  that item's count tallies there.
\<close>

definition present :: "dataframe \<Rightarrow> ranges \<Rightarrow> nat \<Rightarrow> dataframe" where
  "present df vr k = snd (filter_unrealistic_values df (take k vr))"

definition counted :: "dataframe \<Rightarrow> ranges \<Rightarrow> nat \<Rightarrow> row list" where
  "counted df vr k =
     (case vr ! k of (column, min_val, max_val) \<Rightarrow>
        if column \<in> set (columns df)
        then filter (invalid_mask column min_val max_val) (rows (present df vr k))
        else [])"

definition report :: "dataframe \<Rightarrow> ranges \<Rightarrow> nat \<Rightarrow> warning list" where
  "report df vr k =
     (if counted df vr k = [] then []
      else [Warning (length (counted df vr k)) (fst (vr ! k))])"

text \<open>One pass of the loop body on the frame: the rows item \<open>e\<close> keeps.\<close>

definition keep_step :: "dataframe \<Rightarrow> string \<times> rat \<times> rat \<Rightarrow> dataframe" where
  "keep_step df e =
     (case e of (column, min_val, max_val) \<Rightarrow>
        if column \<in> set (columns df)
        then df\<lparr>rows := filter (keep_mask column min_val max_val) (rows df)\<rparr>
        else df)"

section \<open>Exam aggregation\<close>

text \<open>
  \<open>lean_fat_data[lean_fat_data['exam_status'] == 1].dropna()\<close>: the rows whose exam status
  is 1, without the rows that have a missing value in any column.
\<close>

definition dropna :: "dataframe \<Rightarrow> dataframe" where
  "dropna df = df\<lparr>rows := filter (\<lambda>r. \<forall>c \<in> set (columns df). cell_at r c \<noteq> NaN) (rows df)\<rparr>"


text \<open>The numbers of a list of cells, in order (a filtered frame has no missing cell).\<close>

fun float_values :: "cell list \<Rightarrow> rat list" where
  "float_values [] = []"
| "float_values (NaN # cs) = float_values cs"
| "float_values (Num x # cs) = x # float_values cs"

definition column_values :: "row list \<Rightarrow> string \<Rightarrow> rat list" where
  "column_values grp c = float_values (map (\<lambda>r. cell_at r c) grp)"

text \<open>
  \<open>groupby('id')\<close>, iterated: the groups in ascending order of the key, each with the
  rows of that key in the frame's order. Rows with a missing key belong to no group.
\<close>

definition groupby_id :: "dataframe \<Rightarrow> (rat \<times> row list) list" where
  "groupby_id df =
     map (\<lambda>k. (k, filter (\<lambda>r. cell_at r ''id'' = Num k) (rows df)))
       (sort (remdups (column_values (rows df) ''id'')))"

text \<open>
  \<open>scipy.stats.mode(a, keepdims=True)\<close> on a one-dimensional array without missing
  values: the distinct values in ascending order with their counts (\<open>np.unique\<close>), and
  of these the first one whose count is maximal (\<open>argmax\<close>), with that count. On an
  empty array the mode is NaN and the count 0.
\<close>

definition unique_counts :: "rat list \<Rightarrow> (rat \<times> nat) list" where
  "unique_counts a = map (\<lambda>v. (v, count_list a v)) (sort (remdups a))"

fun argmax_first :: "rat \<times> nat \<Rightarrow> (rat \<times> nat) list \<Rightarrow> rat \<times> nat" where
  "argmax_first best [] = best"
| "argmax_first best (p # ps) = argmax_first (if snd p > snd best then p else best) ps"

definition mode :: "rat list \<Rightarrow> cell \<times> nat" where
  "mode a =
     (case unique_counts a of
        [] \<Rightarrow> (NaN, 0)
      | p # ps \<Rightarrow> (Num (fst (argmax_first p ps)), snd (argmax_first p ps)))"

text \<open>\<open>Series.mean()\<close>: the sum over the count; NaN for an empty series.\<close>

definition mean :: "rat list \<Rightarrow> cell" where
  "mean a = (if a = [] then NaN else Num (sum_list a / of_nat (length a)))"

text \<open>\<open>m.mode[0] if m.count[0] > 1 else group[c].mean()\<close>\<close>

definition mode_or_mean :: "rat list \<Rightarrow> cell" where
  "mode_or_mean a = (if snd (mode a) > 1 then fst (mode a) else mean a)"

text \<open>
  The loop over the groups appends one dictionary per subject; the frame built from the
  list has the dictionaries' keys as columns (none when the list is empty).
\<close>

definition aggregated_lean_fat_df :: "dataframe \<Rightarrow> dataframe" where
  "aggregated_lean_fat_df filtered =
     (let aggregated_lean_fat_data =
            map (\<lambda>(individual_id, grp).
                   [(''id'', Num individual_id),
                    (''total_fat_mass'', mode_or_mean (column_values grp ''total_fat_mass'')),
                    (''total_lean_mass'', mode_or_mean (column_values grp ''total_lean_mass''))])
              (groupby_id filtered)
      in \<lparr>columns = (if aggregated_lean_fat_data = [] then []
                      else [''id'', ''total_fat_mass'', ''total_lean_mass'']),
          rows = reindex aggregated_lean_fat_data\<rparr>)"


section \<open>The three-way join\<close>

text \<open>
  \<open>left.merge(right, on=key, how='inner')\<close>: one output row for every pair of a left and
  a right row with equal keys, in the order of the left rows; equal means the same
  number, or missing on both sides. The output has the left columns and the right columns
  but the key; a column other than the key that both frames have gets the suffix
  \<open>_x\<close> on the left and \<open>_y\<close> on the right. The index is renumbered. A frame without
  the key column raises KeyError.
\<close>

definition suffixed :: "string \<Rightarrow> string list \<Rightarrow> string \<Rightarrow> string \<Rightarrow> string" where
  "suffixed on other sfx c = (if c \<noteq> on \<and> c \<in> set other then c @ sfx else c)"

definition joined_cells ::
  "string \<Rightarrow> string list \<Rightarrow> string list \<Rightarrow> row \<Rightarrow> row \<Rightarrow> (string \<times> cell) list" where
  "joined_cells on lcols rcols l r =
     map (\<lambda>(c, v). (suffixed on rcols ''_x'' c, v)) (cells l) @
     map (\<lambda>(c, v). (suffixed on lcols ''_y'' c, v)) (filter (\<lambda>(c, v). c \<noteq> on) (cells r))"

definition merge :: "dataframe \<Rightarrow> dataframe \<Rightarrow> string \<Rightarrow> error + dataframe" where
  "merge left right on =
     (if on \<notin> set (columns left) \<or> on \<notin> set (columns right) then Inl KeyError
      else Inr \<lparr>columns =
                  map (suffixed on (columns right) ''_x'') (columns left) @
                  map (suffixed on (columns left) ''_y'') (filter (\<lambda>c. c \<noteq> on) (columns right)),
                rows = reindex (concat (map (\<lambda>l.
                  map (joined_cells on (columns left) (columns right) l)
                    (filter (\<lambda>r. cell_at r on = cell_at l on) (rows right))) (rows left)))\<rparr>)"

definition merged_health_data :: "dataframe \<Rightarrow> dataframe \<Rightarrow> dataframe \<Rightarrow> error + dataframe" where
  "merged_health_data body_measurements demographic_data aggregated =
     (case merge body_measurements demographic_data ''id'' of
        Inl e \<Rightarrow> Inl e
      | Inr m \<Rightarrow> merge m aggregated ''id'')"

text \<open>The subject identifiers of a frame, row by row.\<close>

definition ids :: "dataframe \<Rightarrow> cell list" where
  "ids df = map (\<lambda>r. cell_at r ''id'') (rows df)"

section \<open>Inclusion filters, cleaning, validation\<close>

text \<open>
  The rows whose amputation flag is not 1 (a missing flag is not 1), and of these the
  rows whose age in months over 12 is at least 15 and less than 64.
\<close>

definition age_mask :: "row \<Rightarrow> bool" where
  "age_mask r =
     (cell_ge (cell_div (cell_at r ''age_in_months'') 12) 15 \<and>
      cell_lt (cell_div (cell_at r ''age_in_months'') 12) 64)"

definition filtered_health_data :: "dataframe \<Rightarrow> dataframe" where
  "filtered_health_data merged =
     (let filtered = merged\<lparr>rows := filter (\<lambda>r. cell_at r ''amputation'' \<noteq> Num 1) (rows merged)\<rparr>
      in filtered\<lparr>rows := filter age_mask (rows filtered)\<rparr>)"

text \<open>\<open>drop(columns=..., errors='ignore')\<close>, then \<open>dropna()\<close>.\<close>

definition drop_columns :: "string list \<Rightarrow> dataframe \<Rightarrow> dataframe" where
  "drop_columns cs df =
     \<lparr>columns = filter (\<lambda>c. c \<notin> set cs) (columns df),
      rows = map (\<lambda>r. r\<lparr>cells := filter (\<lambda>(c, v). c \<notin> set cs) (cells r)\<rparr>) (rows df)\<rparr>"

definition cleaned_health_data :: "dataframe \<Rightarrow> dataframe" where
  "cleaned_health_data filtered =
     dropna (drop_columns [''pregnancy_status'', ''amputation''] filtered)"

definition validated_health_data :: "dataframe \<Rightarrow> dataframe" where
  "validated_health_data cleaned = snd (filter_unrealistic_values cleaned valid_ranges)"

section \<open>Stratification labels\<close>

definition classify_bmi :: "cell \<Rightarrow> string" where
  "classify_bmi bmi_value =
     (if cell_lt bmi_value (37 / 2) then ''Underweight''
      else if cell_ge bmi_value (37 / 2) \<and> cell_lt bmi_value 25 then ''Healthy Weight''
      else if cell_ge bmi_value 25 \<and> cell_lt bmi_value 30 then ''Overweight''
      else if cell_ge bmi_value 30 \<and> cell_lt bmi_value 35 then ''Obese''
      else ''Extremely Obese'')"

text \<open>
  \<open>astype(str)\<close>: a category becomes its label and a missing category the text
  \<open>nan\<close>; a float becomes its decimal text, which the model takes as a parameter
  \<open>fstr\<close>, and a missing float the text \<open>nan\<close>.
\<close>

definition category_str :: "string option \<Rightarrow> string" where
  "category_str g = (case g of None \<Rightarrow> ''nan'' | Some l \<Rightarrow> l)"

definition float_str :: "(rat \<Rightarrow> string) \<Rightarrow> cell \<Rightarrow> string" where
  "float_str fstr c = (case c of NaN \<Rightarrow> ''nan'' | Num x \<Rightarrow> fstr x)"

text \<open>
  The validated frame with its three derived columns. The derived columns hold text
  and not floats, so a row of this frame is the row of the validated frame together with
  the three texts (the age band may be missing).
\<close>

record strat_row =
  base :: row
  age_group :: "string option"
  bmi_group :: string
  stratify_group :: string

definition with_stratify_group :: "(rat \<Rightarrow> string) \<Rightarrow> dataframe \<Rightarrow> strat_row list" where
  "with_stratify_group fstr validated =
     map (\<lambda>r. \<lparr>base = r,
                age_group = age_group_of r,
                bmi_group = classify_bmi (cell_at r ''bmi''),
                stratify_group =
                  category_str (age_group_of r) @ ''_'' @
                  float_str fstr (cell_at r ''gender'') @ ''_'' @
                  float_str fstr (cell_at r ''ethnicity'') @ ''_'' @
                  classify_bmi (cell_at r ''bmi'')\<rparr>)
       (rows validated)"

text \<open>
  \<open>value_counts()\<close> gives each key its number of occurrences in the column; a key that
  occurs fewer than 2 times is replaced by \<open>Other\<close>.
\<close>

definition collapse_rare :: "strat_row list \<Rightarrow> strat_row list" where
  "collapse_rare t =
     (let group_counts = count_list (map stratify_group t)
      in map (\<lambda>r. r\<lparr>stratify_group :=
                 (if group_counts (stratify_group r) \<ge> 2 then stratify_group r else ''Other'')\<rparr>) t)"

section \<open>The stratified split\<close>

text \<open>
  \<open>train_test_split(table, test_size=0.30, random_state=42, stratify=y)\<close> is the
  library's stratified shuffle split. The pseudo-random generator is a state \<open>rng\<close>
  with one operation, \<open>permutation rng n\<close>, which returns a permutation of
  \<open>[0..<n]\<close> and the next state; the generator seeded with 42 is one such state. The
  proportions, floats in the library, are computed in the rationals.

  The sizes: the test set gets the ceiling of 0.30 times the number of rows, the train
  set the rest; an empty train set is refused.
\<close>

type_synonym 'g permutation = "'g \<Rightarrow> nat \<Rightarrow> nat list \<times> 'g"

definition validate_shuffle_split :: "nat \<Rightarrow> error + nat \<times> nat" where
  "validate_shuffle_split n_samples =
     (let n_test = nat \<lceil>(3 / 10 :: rat) * of_nat n_samples\<rceil>;
          n_train = n_samples - n_test
      in if n_train = 0 then Inl Empty_train_set else Inr (n_train, n_test))"

text \<open>\<open>rng.choice(a, size, replace=False)\<close>: the first \<open>size\<close> entries of a permutation.\<close>

definition choice :: "'g permutation \<Rightarrow> 'g \<Rightarrow> nat list \<Rightarrow> nat \<Rightarrow> nat list \<times> 'g" where
  "choice permutation rng a sz =
     (case permutation rng (length a) of (p, rng') \<Rightarrow> (map (\<lambda>j. a ! j) (take sz p), rng'))"

text \<open>
  The number of draws per class: the class's share of the draws, rounded down, and the
  draws still missing given to the classes with the largest remainders, ties broken by
  the generator.
\<close>

text \<open>\<open>np.where(remainder == value)\<close> and \<open>floored[inds] += 1\<close>.\<close>

definition where_eq :: "rat list \<Rightarrow> rat \<Rightarrow> nat list" where
  "where_eq remainder v = filter (\<lambda>i. remainder ! i = v) [0..<length remainder]"

definition bump :: "nat list \<Rightarrow> nat list \<Rightarrow> nat list" where
  "bump chosen floored =
     map (\<lambda>i. if i \<in> set chosen then floored ! i + 1 else floored ! i) [0..<length floored]"

fun add_by_remainder ::
  "'g permutation \<Rightarrow> rat list \<Rightarrow> rat list \<Rightarrow> nat \<Rightarrow> nat list \<Rightarrow> 'g \<Rightarrow> nat list \<times> 'g" where
  "add_by_remainder permutation remainder [] need_to_add floored rng = (floored, rng)"
| "add_by_remainder permutation remainder (v # vs) need_to_add floored rng =
     (let inds = where_eq remainder v;
          add_now = min (length inds) need_to_add;
          chosen = choice permutation rng inds add_now
      in if need_to_add - add_now = 0 then (bump (fst chosen) floored, snd chosen)
         else add_by_remainder permutation remainder vs (need_to_add - add_now)
                (bump (fst chosen) floored) (snd chosen))"

text \<open>The number of positions that the remainder values \<open>vs\<close> offer to the loop.\<close>

definition offered :: "rat list \<Rightarrow> rat list \<Rightarrow> nat" where
  "offered remainder vs = sum_list (map (\<lambda>v. length (where_eq remainder v)) vs)"

definition approximate_mode ::
  "'g permutation \<Rightarrow> nat list \<Rightarrow> nat \<Rightarrow> 'g \<Rightarrow> nat list \<times> 'g" where
  "approximate_mode permutation class_counts n_draws rng =
     (let continuous = map (\<lambda>c. of_nat c / of_nat (sum_list class_counts) * of_nat n_draws)
                         class_counts;
          floored = map (\<lambda>x. nat \<lfloor>x\<rfloor>) continuous;
          need_to_add = int n_draws - int (sum_list floored)
      in if need_to_add > 0 then
           (let remainder = map (\<lambda>x. x - of_int \<lfloor>x\<rfloor>) continuous;
                vs = rev (sort (remdups remainder))
            in add_by_remainder permutation remainder vs (nat need_to_add) floored rng)
         else (floored, rng))"

text \<open>
  The loop over the classes: a permutation of the class's positions, of which the first
  \<open>n_i[i]\<close> go to the train set and the next \<open>t_i[i]\<close> to the test set.
\<close>

fun split_classes ::
  "'g permutation \<Rightarrow> nat list \<Rightarrow> nat list list \<Rightarrow> nat list \<Rightarrow> nat list \<Rightarrow> nat list \<Rightarrow>
   nat list \<Rightarrow> nat list \<Rightarrow> 'g \<Rightarrow> nat list \<times> nat list \<times> 'g" where
  "split_classes permutation class_counts class_indices n_i t_i [] train test rng =
     (train, test, rng)"
| "split_classes permutation class_counts class_indices n_i t_i (i # is) train test rng =
     (let perm = permutation rng (class_counts ! i);
          perm_indices_class_i =
            map (\<lambda>j. (class_indices ! i) ! min j (length (class_indices ! i) - 1)) (fst perm)
      in split_classes permutation class_counts class_indices n_i t_i is
           (train @ take (n_i ! i) perm_indices_class_i)
           (test @ take (t_i ! i) (drop (n_i ! i) perm_indices_class_i))
           (snd perm))"

text \<open>
  The split of the positions \<open>[0..<length y]\<close> by the keys \<open>y\<close>. The classes are
  the distinct keys in ascending order. The split is refused when the least populated class
  has fewer than 2 members ("The least populated class in y has only 1 member, which is
  too few"), or when the train or the test size is below the number of classes. (An empty
  column has no minimum of the class counts; the size check before lets none through.)
\<close>

definition stratified_shuffle_split ::
  "'g permutation \<Rightarrow> 'g \<Rightarrow> string list \<Rightarrow> nat \<Rightarrow> nat \<Rightarrow> error + nat list \<times> nat list" where
  "stratified_shuffle_split permutation rng y n_train n_test =
     (let classes = sort (remdups y);
          n_classes = length classes;
          class_counts = map (count_list y) classes
      in if class_counts = [] \<or> Min (set class_counts) < 2 then Inl Least_populated_class
         else if n_train < n_classes then Inl Train_size_below_classes
         else if n_test < n_classes then Inl Test_size_below_classes
         else
           (let class_indices = map (\<lambda>c. filter (\<lambda>i. y ! i = c) [0..<length y]) classes;
                n_i = approximate_mode permutation class_counts n_train rng;
                class_counts_remaining = map (\<lambda>(c, n). c - n) (zip class_counts (fst n_i));
                t_i = approximate_mode permutation class_counts_remaining n_test (snd n_i);
                s = split_classes permutation class_counts class_indices (fst n_i) (fst t_i)
                      [0..<n_classes] [] [] (snd t_i);
                train = fst s;
                test = fst (snd s);
                p_train = permutation (snd (snd s)) (length train);
                p_test = permutation (snd p_train) (length test)
            in Inr (map (\<lambda>j. train ! j) (fst p_train), map (\<lambda>j. test ! j) (fst p_test))))"

definition train_test_split ::
  "'g permutation \<Rightarrow> 'g \<Rightarrow> 'a list \<Rightarrow> string list \<Rightarrow> error + 'a list \<times> 'a list" where
  "train_test_split permutation rng table y =
     (case validate_shuffle_split (length table) of
        Inl e \<Rightarrow> Inl e
      | Inr (n_train, n_test) \<Rightarrow>
          if length y \<noteq> length table then Inl Inconsistent_lengths
          else
            (case stratified_shuffle_split permutation rng y n_train n_test of
               Inl e \<Rightarrow> Inl e
             | Inr (train, test) \<Rightarrow>
                 Inr (map (\<lambda>i. table ! i) train, map (\<lambda>i. table ! i) test)))"

text \<open>The last cell of the notebook's split: collapse the rare keys, then split on the keys.\<close>

definition split_validated ::
  "'g permutation \<Rightarrow> 'g \<Rightarrow> strat_row list \<Rightarrow> error + strat_row list \<times> strat_row list" where
  "split_validated permutation rng t =
     train_test_split permutation rng (collapse_rare t) (map stratify_group (collapse_rare t))"

text \<open>The subject identifier of a row of the stratified frame.\<close>

definition subject_id :: "strat_row \<Rightarrow> cell" where
  "subject_id s = cell_at (base s) ''id''"

text \<open>What the model asks of the generator: a permutation of \<open>[0..<n]\<close> at every call.\<close>

definition permutes :: "'g permutation \<Rightarrow> bool" where
  "permutes permutation = (\<forall>rng n. mset (fst (permutation rng n)) = mset [0..<n])"

text \<open>A generator for the examples: its state counts the calls, its permutation reverses.\<close>

definition rev_permutation :: "nat permutation" where
  "rev_permutation rng n = (rev [0..<n], Suc rng)"

section \<open>The converter\<close>












section \<open>Example tables\<close>

text \<open>
  A frame for the range validation: subject 1 is in range, subject 2 is too light and
  too tall, subject 3 has no weight, subject 4 is too short.
\<close>

definition ex_row :: "nat \<Rightarrow> rat \<Rightarrow> cell \<Rightarrow> cell \<Rightarrow> row" where
  "ex_row i k w h = \<lparr>idx = i, cells = [(''id'', Num k), (''weight'', w), (''height'', h)]\<rparr>"

definition ex_measures :: dataframe where
  "ex_measures =
     \<lparr>columns = [''id'', ''weight'', ''height''],
      rows = [ex_row 0 1 (Num 70) (Num 170),
              ex_row 1 2 (Num 20) (Num 300),
              ex_row 2 3 NaN (Num 170),
              ex_row 3 4 (Num 80) (Num 90)]\<rparr>"

text \<open>
  Three frames for the join: measurements of subjects 1, 2, 3, demographics of subjects
  2, 3, 4, aggregated masses of subjects 3, 2, 5.
\<close>

definition ex_bm :: dataframe where
  "ex_bm =
     \<lparr>columns = [''id'', ''weight''],
      rows = [\<lparr>idx = 0, cells = [(''id'', Num 1), (''weight'', Num 70)]\<rparr>,
              \<lparr>idx = 1, cells = [(''id'', Num 2), (''weight'', Num 80)]\<rparr>,
              \<lparr>idx = 2, cells = [(''id'', Num 3), (''weight'', Num 90)]\<rparr>]\<rparr>"

definition ex_demo :: dataframe where
  "ex_demo =
     \<lparr>columns = [''id'', ''gender''],
      rows = [\<lparr>idx = 0, cells = [(''id'', Num 2), (''gender'', Num 1)]\<rparr>,
              \<lparr>idx = 1, cells = [(''id'', Num 3), (''gender'', Num 2)]\<rparr>,
              \<lparr>idx = 2, cells = [(''id'', Num 4), (''gender'', Num 1)]\<rparr>]\<rparr>"

definition ex_agg :: dataframe where
  "ex_agg =
     \<lparr>columns = [''id'', ''total_fat_mass''],
      rows = [\<lparr>idx = 0, cells = [(''id'', Num 3), (''total_fat_mass'', Num 20000)]\<rparr>,
              \<lparr>idx = 1, cells = [(''id'', Num 2), (''total_fat_mass'', Num 25000)]\<rparr>,
              \<lparr>idx = 2, cells = [(''id'', Num 5), (''total_fat_mass'', Num 30000)]\<rparr>]\<rparr>"





text \<open>
  A joined frame of six subjects: subjects 1 and 2 are 15.5 and 15.8 years old, subjects 3
  and 4 about 25, subject 5 is 66 years old and subject 6 has an amputation. A float is
  printed with one decimal in the examples.
\<close>

definition ex_fstr :: "rat \<Rightarrow> string" where
  "ex_fstr q = (if q = 1 then ''1.0'' else if q = 2 then ''2.0'' else ''3.0'')"

definition ex_subject :: "nat \<Rightarrow> rat \<Rightarrow> rat \<Rightarrow> rat \<Rightarrow> rat \<Rightarrow> cell \<Rightarrow> row" where
  "ex_subject i k age gender bmi amp =
     \<lparr>idx = i,
      cells = [(''id'', Num k), (''weight'', Num 70), (''height'', Num 170), (''bmi'', Num bmi),
               (''amputation'', amp), (''gender'', Num gender), (''age_in_months'', Num age),
               (''ethnicity'', Num 3), (''pregnancy_status'', NaN)]\<rparr>"

definition ex_merged :: dataframe where
  "ex_merged =
     \<lparr>columns = [''id'', ''weight'', ''height'', ''bmi'', ''amputation'', ''gender'',
                  ''age_in_months'', ''ethnicity'', ''pregnancy_status''],
      rows = [ex_subject 0 1 186 1 22 NaN,
              ex_subject 1 2 190 1 23 NaN,
              ex_subject 2 3 300 2 27 NaN,
              ex_subject 3 4 310 2 28 NaN,
              ex_subject 4 5 800 1 22 NaN,
              ex_subject 5 6 200 1 22 (Num 1)]\<rparr>"

text \<open>The rows of the example after the cleaning, which drops two columns.\<close>

definition ex_clean :: "nat \<Rightarrow> rat \<Rightarrow> rat \<Rightarrow> rat \<Rightarrow> rat \<Rightarrow> row" where
  "ex_clean i k age gender bmi =
     \<lparr>idx = i,
      cells = [(''id'', Num k), (''weight'', Num 70), (''height'', Num 170), (''bmi'', Num bmi),
               (''gender'', Num gender), (''age_in_months'', Num age), (''ethnicity'', Num 3)]\<rparr>"

definition ex_validated :: dataframe where
  "ex_validated = validated_health_data (cleaned_health_data (filtered_health_data ex_merged))"

text \<open>
  A validated frame of three subjects: two share their stratum and the third is alone in
  its stratum.
\<close>

definition ex_three :: dataframe where
  "ex_three =
     \<lparr>columns = [''id'', ''weight'', ''height'', ''bmi'', ''gender'', ''age_in_months'',
                  ''ethnicity''],
      rows = [ex_clean 0 1 300 1 22, ex_clean 1 2 310 1 23, ex_clean 2 3 600 2 31]\<rparr>"

section \<open>Properties of the range validation\<close>

lemma fuv_snd_Cons:
  "snd (filter_unrealistic_values df (e # rest)) =
   snd (filter_unrealistic_values (keep_step df e) rest)"
  by (cases e) (simp add: keep_step_def Let_def)

lemma keep_step_columns: "columns (keep_step df e) = columns df"
  by (cases e) (simp add: keep_step_def)

lemma keep_step_rows: "set (rows (keep_step df e)) \<subseteq> set (rows df)"
  by (cases e) (auto simp: keep_step_def)

lemma fuv_columns: "columns (snd (filter_unrealistic_values df vr)) = columns df"
proof (induction vr arbitrary: df)
  case Nil
  show ?case by simp
next
  case (Cons e vr)
  show ?case by (simp only: fuv_snd_Cons Cons.IH keep_step_columns)
qed

lemma fuv_rows_subset: "set (rows (snd (filter_unrealistic_values df vr))) \<subseteq> set (rows df)"
proof (induction vr arbitrary: df)
  case Nil
  show ?case by simp
next
  case (Cons e vr)
  have "set (rows (snd (filter_unrealistic_values (keep_step df e) vr)))
          \<subseteq> set (rows (keep_step df e))"
    by (rule Cons.IH)
  then show ?case using keep_step_rows[of df e] unfolding fuv_snd_Cons by blast
qed

lemma fuv_snd_append:
  "snd (filter_unrealistic_values df (xs @ ys)) =
   snd (filter_unrealistic_values (snd (filter_unrealistic_values df xs)) ys)"
proof (induction xs arbitrary: df)
  case Nil
  show ?case by simp
next
  case (Cons e xs)
  show ?case by (simp only: append_Cons fuv_snd_Cons Cons.IH)
qed

lemma fuv_keeps:
  assumes "(c, lo, hi) \<in> set vr" "c \<in> set (columns df)"
    "r \<in> set (rows (snd (filter_unrealistic_values df vr)))"
  shows "keep_mask c lo hi r"
  using assms
proof (induction vr arbitrary: df)
  case Nil
  then show ?case by simp
next
  case (Cons e vr)
  have in_step: "r \<in> set (rows (snd (filter_unrealistic_values (keep_step df e) vr)))"
    using Cons.prems(3) by (simp only: fuv_snd_Cons)
  show ?case
  proof (cases "e = (c, lo, hi)")
    case True
    have "r \<in> set (rows (keep_step df e))"
      using in_step fuv_rows_subset by blast
    then show ?thesis using True Cons.prems(2) by (simp add: keep_step_def)
  next
    case False
    then have "(c, lo, hi) \<in> set vr" using Cons.prems(1) by auto
    moreover have "c \<in> set (columns (keep_step df e))"
      using Cons.prems(2) by (simp add: keep_step_columns)
    ultimately show ?thesis using Cons.IH in_step by blast
  qed
qed

lemma keep_mask_Num:
  "keep_mask c lo hi r \<longleftrightarrow> (\<exists>v. cell_at r c = Num v \<and> lo \<le> v \<and> v \<le> hi)"
  by (cases "cell_at r c") (auto simp: keep_mask_def)

lemma keep_not_invalid: "keep_mask c lo hi r \<Longrightarrow> \<not> invalid_mask c lo hi r"
  by (cases "cell_at r c") (auto simp: keep_mask_def invalid_mask_def)

lemma present_Suc:
  assumes "k < length vr"
  shows "present df vr (Suc k) = keep_step (present df vr k) (vr ! k)"
proof -
  have "take (Suc k) vr = take k vr @ [vr ! k]"
    using assms by (simp add: take_Suc_conv_app_nth)
  then show ?thesis
    by (simp add: present_def fuv_snd_append fuv_snd_Cons)
qed

lemma present_later_subset:
  assumes "k \<le> j"
  shows "set (rows (present df vr j)) \<subseteq> set (rows (present df vr k))"
proof -
  have "take j vr = take k vr @ drop k (take j vr)"
    using assms by (metis append_take_drop_id min.absorb_iff2 take_take min.commute)
  then have "present df vr j =
      snd (filter_unrealistic_values (present df vr k) (drop k (take j vr)))"
    unfolding present_def using fuv_snd_append by metis
  then show ?thesis using fuv_rows_subset by simp
qed

lemma present_columns: "columns (present df vr k) = columns df"
  by (simp add: present_def fuv_columns)

lemma counted_disjoint:
  assumes "k < j" "j < length vr"
  shows "set (counted df vr k) \<inter> set (counted df vr j) = {}"
proof -
  obtain c lo hi where e: "vr ! k = (c, lo, hi)" by (cases "vr ! k")
  show ?thesis
  proof (cases "c \<in> set (columns df)")
    case False
    then show ?thesis by (simp add: counted_def e)
  next
    case True
    have "set (counted df vr j) \<subseteq> set (rows (present df vr j))"
      by (auto simp: counted_def split: prod.splits if_splits)
    also have "\<dots> \<subseteq> set (rows (present df vr (Suc k)))"
      using assms by (intro present_later_subset) simp
    also have "\<dots> = set (rows (keep_step (present df vr k) (vr ! k)))"
      using assms by (simp add: present_Suc)
    also have "\<dots> \<subseteq> {r. keep_mask c lo hi r}"
      using True by (auto simp: keep_step_def e present_columns)
    finally have "\<forall>r \<in> set (counted df vr j). \<not> invalid_mask c lo hi r"
      using keep_not_invalid by blast
    moreover have "\<forall>r \<in> set (counted df vr k). invalid_mask c lo hi r"
      using True by (simp add: counted_def e)
    ultimately show ?thesis by blast
  qed
qed

lemma fuv_fst_Cons:
  "fst (filter_unrealistic_values df (e # rest)) =
   report df (e # rest) 0 @ fst (filter_unrealistic_values (keep_step df e) rest)"
  by (cases e) (simp add: keep_step_def Let_def report_def counted_def present_def)

lemma present_Cons: "present df (e # rest) (Suc k) = present (keep_step df e) rest k"
  by (simp add: present_def fuv_snd_Cons)

lemma counted_Cons: "counted df (e # rest) (Suc k) = counted (keep_step df e) rest k"
  by (simp add: counted_def present_Cons keep_step_columns split: prod.splits)

lemma report_Cons: "report df (e # rest) (Suc k) = report (keep_step df e) rest k"
  by (simp add: report_def counted_Cons)

lemma fuv_reports:
  "fst (filter_unrealistic_values df vr) = concat (map (report df vr) [0..<length vr])"
proof (induction vr arbitrary: df)
  case Nil
  show ?case by simp
next
  case (Cons e vr)
  have "[0..<length (e # vr)] = 0 # map Suc [0..<length vr]"
    by (simp add: upt_conv_Cons map_Suc_upt del: upt_Suc)
  then have "concat (map (report df (e # vr)) [0..<length (e # vr)]) =
      report df (e # vr) 0 @ concat (map (report (keep_step df e) vr) [0..<length vr])"
    by (simp add: comp_def report_Cons)
  then show ?case by (simp only: fuv_fst_Cons Cons.IH)
qed

text \<open>The validation of the example frame, evaluated.\<close>

lemma ex_measures_validated:
  "filter_unrealistic_values ex_measures valid_ranges =
     ([Warning 1 ''weight'', Warning 1 ''height''],
      \<lparr>columns = [''id'', ''weight'', ''height''], rows = [ex_row 0 1 (Num 70) (Num 170)]\<rparr>)"
  by (simp add: ex_measures_def valid_ranges_def ex_row_def Let_def keep_mask_def
      invalid_mask_def cell_at_def)

section \<open>Claims about the range validation\<close>

text \<open>
  C4. After range validation, for every column that the range table covers and the frame
  has, and for every row that survives in the output, the row's value in that column is a
  number within the declared inclusive bounds: \<open>min_val \<le> value \<le> max_val\<close>.
\<close>

theorem validated_within_bounds:
  assumes "(c, min_val, max_val) \<in> set vr"
    and "c \<in> set (columns df)"
    and "r \<in> set (rows (snd (filter_unrealistic_values df vr)))"
  shows "\<exists>v. cell_at r c = Num v \<and> min_val \<le> v \<and> v \<le> max_val"
  using fuv_keeps[OF assms] by (simp add: keep_mask_Num)

theorem validated_within_bounds_witness:
  "(''height'', 100, 250) \<in> set valid_ranges \<and>
   ''height'' \<in> set (columns ex_measures) \<and>
   ex_row 0 1 (Num 70) (Num 170) \<in> set (rows (snd (filter_unrealistic_values ex_measures valid_ranges))) \<and>
   (\<exists>v. cell_at (ex_row 0 1 (Num 70) (Num 170)) ''height'' = Num v \<and> 100 \<le> v \<and> v \<le> 250)"
proof -
  have h1: "(''height'', 100, 250) \<in> set valid_ranges"
    by (simp add: valid_ranges_def)
  have h2: "''height'' \<in> set (columns ex_measures)"
    by (simp add: ex_measures_def)
  have h3: "ex_row 0 1 (Num 70) (Num 170)
      \<in> set (rows (snd (filter_unrealistic_values ex_measures valid_ranges)))"
    by (simp add: ex_measures_validated)
  show ?thesis using h1 h2 h3 validated_within_bounds[OF h1 h2 h3] by blast
qed

text \<open>
  C5. The range table is applied one column at a time. The warnings printed are, in the
  order of the table, one for every item whose count is positive, and the count of item
  \<open>k\<close> is the number of rows still present when the loop reaches item \<open>k\<close> (the rows
  that no earlier item removed) whose value in that column is below the minimum or above
  the maximum. The rows counted by two different items are disjoint: no row is reported
  twice.
\<close>

theorem reported_counts_sequential:
  "fst (filter_unrealistic_values df vr) = concat (map (report df vr) [0..<length vr]) \<and>
   (\<forall>k j. k < j \<and> j < length vr \<longrightarrow> set (counted df vr k) \<inter> set (counted df vr j) = {})"
  using fuv_reports counted_disjoint by blast

theorem reported_counts_sequential_witness:
  "fst (filter_unrealistic_values ex_measures valid_ranges) =
     [Warning 1 ''weight'', Warning 1 ''height''] \<and>
   concat (map (report ex_measures valid_ranges) [0..<length valid_ranges]) =
     [Warning 1 ''weight'', Warning 1 ''height''] \<and>
   counted ex_measures valid_ranges 0 = [ex_row 1 2 (Num 20) (Num 300)] \<and>
   counted ex_measures valid_ranges 1 = [ex_row 3 4 (Num 80) (Num 90)] \<and>
   set (counted ex_measures valid_ranges 0) \<inter> set (counted ex_measures valid_ranges 1) = {}"
proof -
  have l: "(0::nat) < 1 \<and> 1 < length valid_ranges"
    by (simp add: valid_ranges_def)
  have c0: "counted ex_measures valid_ranges 0 = [ex_row 1 2 (Num 20) (Num 300)]"
    by (simp add: counted_def present_def valid_ranges_def ex_measures_def ex_row_def
        invalid_mask_def cell_at_def)
  have c1: "counted ex_measures valid_ranges 1 = [ex_row 3 4 (Num 80) (Num 90)]"
    by (simp add: counted_def present_def valid_ranges_def ex_measures_def ex_row_def
        invalid_mask_def keep_mask_def cell_at_def Let_def)
  have f: "fst (filter_unrealistic_values ex_measures valid_ranges) =
     [Warning 1 ''weight'', Warning 1 ''height'']"
    by (simp add: ex_measures_validated)
  note t = reported_counts_sequential[of ex_measures valid_ranges]
  have a: "concat (map (report ex_measures valid_ranges) [0..<length valid_ranges]) =
     [Warning 1 ''weight'', Warning 1 ''height'']"
    using t f by simp
  have d: "set (counted ex_measures valid_ranges 0) \<inter> set (counted ex_measures valid_ranges 1) = {}"
    using t l by blast
  show ?thesis
    by (intro conjI) (fact f a c0 c1 d)+
qed



section \<open>Claims about the age bands\<close>

lemma age_bands_eq:
  "age_bands = [(''16-26'', 16, 26), (''26-36'', 26, 36), (''36-46'', 36, 46),
                (''46-56'', 46, 56), (''56-65'', 56, 65)]"
  by (simp add: age_bands_def age_bins_def age_labels_def)

text \<open>
  C2, as the claim states it, fails: the age 65.5 years (786 months) lies in [16, 66) and
  falls into no band, and the last band spans 9 years.
\<close>

theorem age_bands_cover_66_counterexample:
  "16 \<le> (786 :: rat) / 12 \<and> (786 :: rat) / 12 < 66 \<and>
   age_group_of \<lparr>idx = 0, cells = [(''age_in_months'', Num 786)]\<rparr> = None \<and>
   filter (in_band (786 / 12)) age_bands = [] \<and>
   band_width (age_bands ! 4) = 9"
  by (simp add: age_group_of_def cell_at_def age_bins_def age_labels_def age_bands_eq
      in_band_def band_width_def)

text \<open>
  C2, as amended. The age of a subject, its age in months over 12, is classified into
  five half-open bands that cover [16, 65): an age in [16, 65) lies in exactly one band
  and gets that band's label; an age below 16 or from 65 on lies in no band and gets no
  label. The first four bands span 10 years; the last, [56, 65), spans 9.
\<close>

theorem age_group_bands:
  assumes "cell_at r ''age_in_months'' = Num m"
  shows "(16 \<le> m / 12 \<and> m / 12 < 65 \<longrightarrow>
            (\<exists>b. filter (in_band (m / 12)) age_bands = [b] \<and> age_group_of r = Some (fst b)))
       \<and> (m / 12 < 16 \<or> 65 \<le> m / 12 \<longrightarrow>
            filter (in_band (m / 12)) age_bands = [] \<and> age_group_of r = None)
       \<and> map band_width age_bands = [10, 10, 10, 10, 9]"
proof -
  define a where "a = m / 12"
  have g: "age_group_of r = cut age_bins age_labels (Num a)"
    using assms by (simp add: age_group_of_def a_def)
  consider "a < 16" | "16 \<le> a" "a < 26" | "26 \<le> a" "a < 36" | "36 \<le> a" "a < 46"
    | "46 \<le> a" "a < 56" | "56 \<le> a" "a < 65" | "65 \<le> a"
    by linarith
  then have "(16 \<le> a \<and> a < 65 \<longrightarrow>
            (\<exists>b. filter (in_band a) age_bands = [b] \<and> age_group_of r = Some (fst b)))
       \<and> (a < 16 \<or> 65 \<le> a \<longrightarrow> filter (in_band a) age_bands = [] \<and> age_group_of r = None)"
    by cases (simp_all add: g age_bands_eq in_band_def age_bins_def age_labels_def)
  moreover have "map band_width age_bands = [10, 10, 10, 10, 9]"
    by (simp add: age_bands_eq band_width_def)
  ultimately show ?thesis by (simp add: a_def)
qed

theorem age_group_bands_witness:
  "cell_at \<lparr>idx = 0, cells = [(''age_in_months'', Num 300)]\<rparr> ''age_in_months'' = Num 300 \<and>
   16 \<le> (300 :: rat) / 12 \<and> (300 :: rat) / 12 < 65 \<and>
   filter (in_band (300 / 12)) age_bands = [(''16-26'', 16, 26)] \<and>
   age_group_of \<lparr>idx = 0, cells = [(''age_in_months'', Num 300)]\<rparr> = Some ''16-26''"
proof -
  have h: "cell_at \<lparr>idx = 0, cells = [(''age_in_months'', Num 300)]\<rparr> ''age_in_months'' = Num 300"
    by (simp add: cell_at_def)
  have f: "filter (in_band (300 / 12)) age_bands = [(''16-26'', 16, 26)]"
    by (simp add: age_bands_eq in_band_def)
  show ?thesis using h f age_group_bands[OF h] by simp
qed

section \<open>Properties of the join\<close>

lemma suffixed_id_x: "suffixed ''id'' other ''_x'' c = ''id'' \<longleftrightarrow> c = ''id''"
  by (auto simp: suffixed_def)

lemma suffixed_id_y: "suffixed ''id'' other ''_y'' c = ''id'' \<longleftrightarrow> c = ''id''"
  by (auto simp: suffixed_def)

lemma map_of_suffixed_x:
  "map_of (map (\<lambda>(c, v). (suffixed ''id'' other ''_x'' c, v)) cs) ''id'' = map_of cs ''id''"
proof (induction cs)
  case Nil
  show ?case by simp
next
  case (Cons p cs)
  obtain c v where p: "p = (c, v)" by (cases p)
  show ?case
  proof (cases "c = ''id''")
    case True
    then show ?thesis by (simp add: p suffixed_def)
  next
    case False
    then have "suffixed ''id'' other ''_x'' c \<noteq> ''id''" by (simp add: suffixed_id_x)
    then show ?thesis using False Cons.IH by (simp add: p)
  qed
qed

lemma map_of_suffixed_y:
  "map_of (map (\<lambda>(c, v). (suffixed ''id'' other ''_y'' c, v))
     (filter (\<lambda>(c, v). c \<noteq> ''id'') cs)) ''id'' = None"
proof (induction cs)
  case Nil
  show ?case by simp
next
  case (Cons p cs)
  obtain c v where p: "p = (c, v)" by (cases p)
  show ?case
  proof (cases "c = ''id''")
    case True
    then show ?thesis using Cons.IH by (simp add: p)
  next
    case False
    then have "suffixed ''id'' other ''_y'' c \<noteq> ''id''" by (simp add: suffixed_id_y)
    then show ?thesis using False Cons.IH by (simp add: p)
  qed
qed

lemma joined_cells_id:
  "map_of (joined_cells ''id'' lcols rcols l r) ''id'' = map_of (cells l) ''id''"
  by (simp add: joined_cells_def map_add_def map_of_suffixed_x map_of_suffixed_y
      split: option.splits)

lemma cell_at_joined:
  "cell_at \<lparr>idx = i, cells = joined_cells ''id'' lcols rcols l r\<rparr> ''id'' = cell_at l ''id''"
  by (simp add: cell_at_def joined_cells_id)

lemma map_cells_reindex: "map cells (reindex cs) = cs"
proof -
  have "map cells (reindex cs) = map snd (enumerate 0 cs)"
    by (simp add: reindex_def case_prod_unfold comp_def)
  then show ?thesis by (simp add: map_snd_enumerate)
qed

lemma length_reindex: "length (reindex cs) = length cs"
  by (simp add: reindex_def)

lemma cell_at_cells: "cell_at r c = (case map_of (cells r) c of Some v \<Rightarrow> v | None \<Rightarrow> NaN)"
  by (simp add: cell_at_def)

lemma ids_reindex:
  "map (\<lambda>r. cell_at r ''id'') (reindex cs) =
   map (\<lambda>d. case map_of d ''id'' of Some v \<Rightarrow> v | None \<Rightarrow> NaN) cs"
proof -
  have "map (\<lambda>r. cell_at r ''id'') (reindex cs) =
        map (\<lambda>d. case map_of d ''id'' of Some v \<Rightarrow> v | None \<Rightarrow> NaN) (map cells (reindex cs))"
    by (simp add: cell_at_def comp_def)
  then show ?thesis by (simp only: map_cells_reindex)
qed

text \<open>The keys of the joined frame: every left key, once for each right row with that key.\<close>

lemma ids_merge:
  assumes "merge left right ''id'' = Inr out"
  shows "ids out =
     concat (map (\<lambda>l. map (\<lambda>r. cell_at l ''id'')
       (filter (\<lambda>r. cell_at r ''id'' = cell_at l ''id'') (rows right))) (rows left))"
proof -
  have rows_out: "rows out = reindex (concat (map (\<lambda>l.
        map (joined_cells ''id'' (columns left) (columns right) l)
          (filter (\<lambda>r. cell_at r ''id'' = cell_at l ''id'') (rows right))) (rows left)))"
    using assms by (auto simp: merge_def split: if_splits)
  have key: "(case map_of (joined_cells ''id'' lcols rcols l r) ''id'' of
               Some v \<Rightarrow> v | None \<Rightarrow> NaN) = cell_at l ''id''" for lcols rcols l r
    by (simp add: joined_cells_id cell_at_def)
  show ?thesis
    unfolding ids_def rows_out ids_reindex
    by (simp add: map_concat comp_def key)
qed

lemma matches_distinct:
  assumes "distinct (map f xs)"
  shows "length (filter (\<lambda>x. f x = k) xs) = (if k \<in> set (map f xs) then 1 else 0)"
  using assms by (induction xs) auto

lemma concat_if_filter:
  "concat (map (\<lambda>l. if f l \<in> S then [f l] else []) xs) = filter (\<lambda>k. k \<in> S) (map f xs)"
  by (induction xs) auto

lemma ids_merge_distinct:
  assumes "merge left right ''id'' = Inr out" and "distinct (ids right)"
  shows "ids out = filter (\<lambda>k. k \<in> set (ids right)) (ids left)"
proof -
  have one: "map (\<lambda>r. cell_at l ''id'')
        (filter (\<lambda>r. cell_at r ''id'' = cell_at l ''id'') (rows right)) =
      (if cell_at l ''id'' \<in> set (ids right) then [cell_at l ''id''] else [])" for l
  proof -
    have "length (filter (\<lambda>r. cell_at r ''id'' = cell_at l ''id'') (rows right)) =
        (if cell_at l ''id'' \<in> set (ids right) then 1 else 0)"
      using matches_distinct[of "\<lambda>r. cell_at r ''id''" "rows right" "cell_at l ''id''"] assms(2)
      by (simp add: ids_def)
    then show ?thesis
      by (simp add: map_replicate_const)
  qed
  have "ids out = concat (map (\<lambda>l. if cell_at l ''id'' \<in> set (ids right)
                                 then [cell_at l ''id''] else []) (rows left))"
    unfolding ids_merge[OF assms(1)] by (simp only: one)
  also have "\<dots> = filter (\<lambda>k. k \<in> set (ids right)) (ids left)"
    by (simp add: ids_def concat_if_filter)
  finally show ?thesis .
qed

lemma merge_id_column:
  assumes "merge left right ''id'' = Inr out"
  shows "''id'' \<in> set (columns out)"
proof -
  have "''id'' \<in> set (columns left)"
    using assms by (auto simp: merge_def split: if_splits)
  then have "suffixed ''id'' (columns right) ''_x'' ''id''
      \<in> set (map (suffixed ''id'' (columns right) ''_x'') (columns left))"
    by simp
  then have "''id'' \<in> set (map (suffixed ''id'' (columns right) ''_x'') (columns left))"
    by (simp add: suffixed_def)
  then show ?thesis
    using assms by (auto simp: merge_def split: if_splits)
qed

lemma merge_succeeds:
  assumes "''id'' \<in> set (columns left)" and "''id'' \<in> set (columns right)"
  shows "\<exists>out. merge left right ''id'' = Inr out"
  using assms by (simp add: merge_def)

lemma length_rows_ids: "length (rows df) = length (ids df)"
  by (simp add: ids_def)

section \<open>Claims about the join\<close>

text \<open>
  C3. When the subject identifier is unique within each of the three input frames (and
  each has the identifier column, so that the join does not raise), the three-way inner
  join returns a frame whose number of rows is the number of identifiers present in all
  three frames, and at most the number of rows of the smallest input frame.
\<close>

theorem merged_row_count:
  assumes "distinct (ids body_measurements)"
    and "distinct (ids demographic_data)"
    and "distinct (ids aggregated)"
    and "''id'' \<in> set (columns body_measurements)"
    and "''id'' \<in> set (columns demographic_data)"
    and "''id'' \<in> set (columns aggregated)"
  shows "\<exists>out. merged_health_data body_measurements demographic_data aggregated = Inr out \<and>
           length (rows out) =
             card (set (ids body_measurements) \<inter> set (ids demographic_data) \<inter> set (ids aggregated)) \<and>
           length (rows out) \<le>
             min (length (rows body_measurements))
               (min (length (rows demographic_data)) (length (rows aggregated)))"
proof -
  obtain m where m: "merge body_measurements demographic_data ''id'' = Inr m"
    using merge_succeeds[OF assms(4,5)] by blast
  have m_col: "''id'' \<in> set (columns m)"
    using merge_id_column[OF m] .
  obtain out where out: "merge m aggregated ''id'' = Inr out"
    using merge_succeeds[OF m_col assms(6)] by blast
  have ids_m: "ids m = filter (\<lambda>k. k \<in> set (ids demographic_data)) (ids body_measurements)"
    using ids_merge_distinct[OF m assms(2)] .
  have ids_out: "ids out = filter (\<lambda>k. k \<in> set (ids aggregated)) (ids m)"
    using ids_merge_distinct[OF out assms(3)] .
  have dist: "distinct (ids out)"
    using assms(1) by (simp add: ids_out ids_m)
  have set_out: "set (ids out) =
      set (ids body_measurements) \<inter> set (ids demographic_data) \<inter> set (ids aggregated)"
    by (auto simp: ids_out ids_m)
  have len: "length (rows out) =
      card (set (ids body_measurements) \<inter> set (ids demographic_data) \<inter> set (ids aggregated))"
    using distinct_card[OF dist] by (simp add: length_rows_ids set_out)
  have b1: "card (set (ids body_measurements) \<inter> set (ids demographic_data) \<inter> set (ids aggregated))
      \<le> length (rows body_measurements)"
    unfolding length_rows_ids
    by (rule order_trans[OF card_mono card_length]) auto
  have b2: "card (set (ids body_measurements) \<inter> set (ids demographic_data) \<inter> set (ids aggregated))
      \<le> length (rows demographic_data)"
    unfolding length_rows_ids
    by (rule order_trans[OF card_mono card_length]) auto
  have b3: "card (set (ids body_measurements) \<inter> set (ids demographic_data) \<inter> set (ids aggregated))
      \<le> length (rows aggregated)"
    unfolding length_rows_ids
    by (rule order_trans[OF card_mono card_length]) auto
  have "merged_health_data body_measurements demographic_data aggregated = Inr out"
    by (simp add: merged_health_data_def m out)
  then show ?thesis using len b1 b2 b3 by simp
qed

theorem merged_row_count_witness:
  "distinct (ids ex_bm) \<and> distinct (ids ex_demo) \<and> distinct (ids ex_agg) \<and>
   ''id'' \<in> set (columns ex_bm) \<and> ''id'' \<in> set (columns ex_demo) \<and>
   ''id'' \<in> set (columns ex_agg) \<and>
   set (ids ex_bm) \<inter> set (ids ex_demo) \<inter> set (ids ex_agg) = {Num 2, Num 3} \<and>
   (\<exists>out. merged_health_data ex_bm ex_demo ex_agg = Inr out \<and> length (rows out) = 2)"
proof -
  have h1: "distinct (ids ex_bm)" by (simp add: ids_def ex_bm_def cell_at_def)
  have h2: "distinct (ids ex_demo)" by (simp add: ids_def ex_demo_def cell_at_def)
  have h3: "distinct (ids ex_agg)" by (simp add: ids_def ex_agg_def cell_at_def)
  have h4: "''id'' \<in> set (columns ex_bm)" by (simp add: ex_bm_def)
  have h5: "''id'' \<in> set (columns ex_demo)" by (simp add: ex_demo_def)
  have h6: "''id'' \<in> set (columns ex_agg)" by (simp add: ex_agg_def)
  have s: "set (ids ex_bm) \<inter> set (ids ex_demo) \<inter> set (ids ex_agg) = {Num 2, Num 3}"
    by (auto simp: ids_def ex_bm_def ex_demo_def ex_agg_def cell_at_def)
  have c: "card {Num 2, Num 3} = 2" by simp
  show ?thesis
    using merged_row_count[OF h1 h2 h3 h4 h5 h6] h1 h2 h3 h4 h5 h6 s c by auto
qed

section \<open>Properties of the exam aggregation\<close>











text \<open>The cells the aggregation loop appends for subject \<open>k\<close>.\<close>

lemma aggregated_rows:
  "map cells (rows (aggregated_lean_fat_df f)) =
     map (\<lambda>k. [(''id'', Num k),
                (''total_fat_mass'', mode_or_mean (column_values
                   (filter (\<lambda>r. cell_at r ''id'' = Num k) (rows f)) ''total_fat_mass'')),
                (''total_lean_mass'', mode_or_mean (column_values
                   (filter (\<lambda>r. cell_at r ''id'' = Num k) (rows f)) ''total_lean_mass''))])
       (sort (remdups (column_values (rows f) ''id'')))"
  by (simp add: aggregated_lean_fat_df_def Let_def map_cells_reindex groupby_id_def comp_def)

lemma aggregated_ids:
  "map (\<lambda>a. cell_at a ''id'') (rows (aggregated_lean_fat_df f)) =
     map Num (sort (remdups (column_values (rows f) ''id'')))"
proof -
  have "map (\<lambda>a. cell_at a ''id'') (rows (aggregated_lean_fat_df f)) =
        map (\<lambda>d. case map_of d ''id'' of Some v \<Rightarrow> v | None \<Rightarrow> NaN)
          (map cells (rows (aggregated_lean_fat_df f)))"
    by (simp add: cell_at_def comp_def)
  then show ?thesis by (simp add: aggregated_rows comp_def)
qed

section \<open>Claims about the exam aggregation\<close>





section \<open>Properties of the converter\<close>









section \<open>Claims about the converter\<close>



section \<open>Properties of the stratified split\<close>

lemma permutes_props:
  assumes "permutes permutation"
  shows "distinct (fst (permutation rng n))" and "set (fst (permutation rng n)) = {..<n}"
    and "length (fst (permutation rng n)) = n"
proof -
  have m: "mset (fst (permutation rng n)) = mset [0..<n]"
    using assms by (simp add: permutes_def)
  show "distinct (fst (permutation rng n))"
    using m by (metis distinct_upt mset_eq_imp_distinct_iff)
  show "set (fst (permutation rng n)) = {..<n}"
    using m by (metis atLeast_upt mset_eq_setD)
  show "length (fst (permutation rng n)) = n"
    using m by (metis length_upt mset_eq_length minus_nat.diff_0)
qed

lemma permuted_list:
  assumes "permutes permutation"
  shows "mset (map (\<lambda>j. xs ! j) (fst (permutation rng (length xs)))) = mset xs"
proof -
  have "mset (map (\<lambda>j. xs ! j) (fst (permutation rng (length xs)))) =
        image_mset (\<lambda>j. xs ! j) (mset (fst (permutation rng (length xs))))"
    by simp
  also have "\<dots> = image_mset (\<lambda>j. xs ! j) (mset [0..<length xs])"
    using assms by (simp add: permutes_def)
  also have "\<dots> = mset (map (\<lambda>j. xs ! j) [0..<length xs])"
    by simp
  also have "\<dots> = mset xs"
    by (simp add: map_nth)
  finally show ?thesis .
qed

lemma choice_props:
  assumes "permutes permutation" and "distinct a"
  shows "distinct (fst (choice permutation rng a sz))"
    and "set (fst (choice permutation rng a sz)) \<subseteq> set a"
    and "length (fst (choice permutation rng a sz)) = min sz (length a)"
proof -
  let ?p = "fst (permutation rng (length a))"
  have c: "fst (choice permutation rng a sz) = map (\<lambda>j. a ! j) (take sz ?p)"
    by (simp add: choice_def split: prod.splits)
  note P = permutes_props[OF assms(1), of rng "length a"]
  have sub: "set (take sz ?p) \<subseteq> {..<length a}"
    using P(2) set_take_subset by fastforce
  have "inj_on (\<lambda>j. a ! j) (set (take sz ?p))"
  proof (rule inj_onI)
    fix x y
    assume "x \<in> set (take sz ?p)" "y \<in> set (take sz ?p)" "a ! x = a ! y"
    moreover from this sub have "x < length a" "y < length a" by auto
    ultimately show "x = y" using assms(2) by (simp add: nth_eq_iff_index_eq)
  qed
  then show "distinct (fst (choice permutation rng a sz))"
    unfolding c using P(1) by (simp add: distinct_map)
  show "set (fst (choice permutation rng a sz)) \<subseteq> set a"
    unfolding c using sub by auto
  show "length (fst (choice permutation rng a sz)) = min sz (length a)"
    unfolding c using P(3) by simp
qed

lemma length_bump: "length (bump chosen floored) = length floored"
  by (simp add: bump_def)

lemma nth_bump:
  "i < length floored \<Longrightarrow>
   bump chosen floored ! i = (if i \<in> set chosen then floored ! i + 1 else floored ! i)"
  by (simp add: bump_def)

lemma sum_list_bump:
  assumes "distinct chosen" and "set chosen \<subseteq> {..<length floored}"
  shows "sum_list (bump chosen floored) = sum_list floored + length chosen"
proof -
  let ?n = "length floored"
  have "sum_list (bump chosen floored) =
        (\<Sum>i\<leftarrow>[0..<?n]. floored ! i + (if i \<in> set chosen then 1 else 0))"
    unfolding bump_def by (intro arg_cong[where f = sum_list] map_cong) auto
  also have "\<dots> = (\<Sum>i\<leftarrow>[0..<?n]. floored ! i) + (\<Sum>i\<leftarrow>[0..<?n]. if i \<in> set chosen then 1 else 0)"
    by (simp add: sum_list_addf)
  also have "(\<Sum>i\<leftarrow>[0..<?n]. floored ! i) = sum_list floored"
    by (simp add: map_nth)
  also have "(\<Sum>i\<leftarrow>[0..<?n]. if i \<in> set chosen then 1 else 0) = length (filter (\<lambda>i. i \<in> set chosen) [0..<?n])"
    by (simp add: sum_list_map_filter'[symmetric] sum_list_triv)
  also have "length (filter (\<lambda>i. i \<in> set chosen) [0..<?n]) = card (set chosen)"
  proof -
    have "set (filter (\<lambda>i. i \<in> set chosen) [0..<?n]) = set chosen"
      using assms(2) by auto
    moreover have "distinct (filter (\<lambda>i. i \<in> set chosen) [0..<?n])" by simp
    ultimately show ?thesis by (metis distinct_card)
  qed
  also have "card (set chosen) = length chosen"
    using assms(1) by (simp add: distinct_card)
  finally show ?thesis .
qed

lemma where_eq_props:
  "distinct (where_eq remainder v)"
  "set (where_eq remainder v) = {i. i < length remainder \<and> remainder ! i = v}"
  by (auto simp: where_eq_def)

text \<open>
  The loop over the remainder values. The total of the positions its values offer bounds
  what it can add; when the draws to add fit into a prefix of the values, the loop never
  looks beyond the prefix.
\<close>

lemma abr_step:
  "add_by_remainder permutation remainder (v # vs) need floored rng =
     (if need \<le> length (where_eq remainder v)
      then (bump (fst (choice permutation rng (where_eq remainder v) need)) floored,
            snd (choice permutation rng (where_eq remainder v) need))
      else add_by_remainder permutation remainder vs (need - length (where_eq remainder v))
             (bump (fst (choice permutation rng (where_eq remainder v)
                     (length (where_eq remainder v)))) floored)
             (snd (choice permutation rng (where_eq remainder v)
                     (length (where_eq remainder v)))))"
  by (auto simp: Let_def min_def)

declare add_by_remainder.simps(2) [simp del]

lemma abr_prefix:
  assumes "0 < need" and "need \<le> offered remainder vs1"
  shows "add_by_remainder permutation remainder (vs1 @ vs2) need floored rng =
         add_by_remainder permutation remainder vs1 need floored rng"
  using assms
proof (induction vs1 arbitrary: need floored rng)
  case Nil
  then show ?case by (simp add: offered_def)
next
  case (Cons v vs1)
  show ?case
  proof (cases "need \<le> length (where_eq remainder v)")
    case True
    then show ?thesis by (simp only: append_Cons abr_step if_True)
  next
    case False
    then have "0 < need - length (where_eq remainder v)"
      and "need - length (where_eq remainder v) \<le> offered remainder vs1"
      using Cons.prems by (auto simp: offered_def)
    from Cons.IH[OF this] False show ?thesis
      by (simp only: append_Cons abr_step if_False)
  qed
qed

lemma abr_length:
  "length (fst (add_by_remainder permutation remainder vs need floored rng)) = length floored"
proof (induction vs arbitrary: need floored rng)
  case Nil
  show ?case by simp
next
  case (Cons v vs)
  show ?case by (simp add: abr_step Cons.IH length_bump)
qed

lemma abr_sum:
  assumes "permutes permutation" and "length floored = length remainder"
    and "need \<le> offered remainder vs"
  shows "sum_list (fst (add_by_remainder permutation remainder vs need floored rng)) =
         sum_list floored + need"
  using assms(2,3)
proof (induction vs arbitrary: need floored rng)
  case Nil
  then show ?case by (simp add: offered_def)
next
  case (Cons v vs)
  let ?inds = "where_eq remainder v"
  have ch: "distinct (fst (choice permutation rng ?inds k))"
    "set (fst (choice permutation rng ?inds k)) \<subseteq> {..<length floored}"
    "length (fst (choice permutation rng ?inds k)) = min k (length ?inds)" for k
    using choice_props[OF assms(1) where_eq_props(1), of rng remainder v k]
      where_eq_props(2)[of remainder v] Cons.prems(1) by auto
  show ?case
  proof (cases "need \<le> length ?inds")
    case True
    then show ?thesis
      by (simp add: abr_step sum_list_bump[OF ch(1,2)] ch(3))
  next
    case False
    let ?fl = "bump (fst (choice permutation rng ?inds (length ?inds))) floored"
    have l: "length ?fl = length remainder" using Cons.prems(1) by (simp add: length_bump)
    have n: "need - length ?inds \<le> offered remainder vs"
      using Cons.prems(2) by (simp add: offered_def)
    have "sum_list ?fl = sum_list floored + length ?inds"
      by (simp add: sum_list_bump[OF ch(1,2)] ch(3))
    with Cons.IH[OF l n] False show ?thesis
      by (simp add: abr_step)
  qed
qed

lemma abr_nth:
  assumes "permutes permutation" and "length floored = length remainder"
    and "distinct vs" and "i < length floored"
  shows "fst (add_by_remainder permutation remainder vs need floored rng) ! i = floored ! i \<or>
         (fst (add_by_remainder permutation remainder vs need floored rng) ! i = floored ! i + 1 \<and>
          remainder ! i \<in> set vs)"
  using assms(2,3,4)
proof (induction vs arbitrary: need floored rng)
  case Nil
  show ?case by simp
next
  case (Cons v vs)
  let ?inds = "where_eq remainder v"
  have sub: "set (fst (choice permutation rng ?inds k)) \<subseteq> set ?inds" for k
    using choice_props(2)[OF assms(1) where_eq_props(1)] by blast
  have b: "bump (fst (choice permutation rng ?inds k)) floored ! i = floored ! i \<or>
      (bump (fst (choice permutation rng ?inds k)) floored ! i = floored ! i + 1 \<and> remainder ! i = v)" for k
    using sub[of k] Cons.prems(3) by (auto simp: nth_bump where_eq_props(2))
  show ?case
  proof (cases "need \<le> length ?inds")
    case True
    then show ?thesis using b[of need] by (auto simp: abr_step)
  next
    case False
    let ?fl = "bump (fst (choice permutation rng ?inds (length ?inds))) floored"
    have l: "length ?fl = length remainder" using Cons.prems(1) by (simp add: length_bump)
    have d: "distinct vs" and nv: "v \<notin> set vs" using Cons.prems(2) by auto
    have i: "i < length ?fl" using Cons.prems(3) by (simp add: length_bump)
    from Cons.IH[OF l d i, of "need - length ?inds"
        "snd (choice permutation rng ?inds (length ?inds))"]
      b[of "length ?inds"] nv False
    show ?thesis by (auto simp: abr_step)
  qed
qed

lemma descending_split:
  assumes "sorted (rev vs)"
  shows "vs = filter (\<lambda>v. t < v) vs @ filter (\<lambda>v. \<not> t < v) vs"
  using assms
proof (induction vs)
  case Nil
  show ?case by simp
next
  case (Cons a vs)
  have le: "\<forall>v \<in> set vs. v \<le> a" and s: "sorted (rev vs)"
    using Cons.prems by (auto simp: sorted_append)
  show ?case
  proof (cases "t < a")
    case True
    then show ?thesis using Cons.IH[OF s] by simp
  next
    case False
    then have "\<forall>v \<in> set vs. \<not> t < v" using le by auto
    then have "filter (\<lambda>v. t < v) vs = []" "filter (\<lambda>v. \<not> t < v) vs = vs"
      by (simp_all add: filter_empty_conv filter_id_conv)
    then show ?thesis using False by simp
  qed
qed

lemma offered_distinct:
  assumes "distinct vs"
  shows "offered remainder vs = card {i. i < length remainder \<and> remainder ! i \<in> set vs}"
  using assms
proof (induction vs)
  case Nil
  show ?case by (simp add: offered_def)
next
  case (Cons v vs)
  let ?A = "{i. i < length remainder \<and> remainder ! i = v}"
  let ?B = "{i. i < length remainder \<and> remainder ! i \<in> set vs}"
  have "length (where_eq remainder v) = card ?A"
    using distinct_card[OF where_eq_props(1), of remainder v] where_eq_props(2)[of remainder v]
    by simp
  moreover have "offered remainder vs = card ?B"
    using Cons by simp
  moreover have "?A \<inter> ?B = {}" using Cons.prems by auto
  moreover have "{i. i < length remainder \<and> remainder ! i \<in> set (v # vs)} = ?A \<union> ?B"
    by auto
  ultimately show ?case
    by (simp add: offered_def card_Un_disjoint)
qed

lemma sum_fractions_le:
  fixes rs :: "rat list"
  assumes "\<forall>r \<in> set rs. 0 \<le> r \<and> r < 1"
  shows "sum_list rs \<le> of_nat (length (filter (\<lambda>r. 0 < r) rs))"
  using assms
proof (induction rs)
  case Nil
  show ?case by simp
next
  case (Cons r rs)
  then have "sum_list rs \<le> of_nat (length (filter (\<lambda>r. 0 < r) rs))" by simp
  moreover have "0 \<le> r" "r < 1" using Cons.prems by auto
  ultimately show ?case by (cases "0 < r") auto
qed

lemma card_positive_positions:
  fixes rs :: "rat list"
  shows "card {i. i < length rs \<and> 0 < rs ! i} = length (filter (\<lambda>r. 0 < r) rs)"
proof -
  have "length (filter (\<lambda>r. 0 < r) rs) = length (filter (\<lambda>r. 0 < r) (map (\<lambda>i. rs ! i) [0..<length rs]))"
    by (simp add: map_nth)
  also have "\<dots> = length (filter (\<lambda>i. 0 < rs ! i) [0..<length rs])"
    by (simp add: filter_map comp_def)
  also have "\<dots> = card (set (filter (\<lambda>i. 0 < rs ! i) [0..<length rs]))"
    by (rule distinct_card[symmetric]) simp
  also have "set (filter (\<lambda>i. 0 < rs ! i) [0..<length rs]) = {i. i < length rs \<and> 0 < rs ! i}"
    by auto
  finally show ?thesis by simp
qed

text \<open>
  The draws per class: as many numbers as classes, summing to the number of draws, none
  above its class count.
\<close>

lemma approximate_mode_props:
  assumes "permutes permutation" and "0 < sum_list cc" and "n_draws \<le> sum_list cc"
  shows "length (fst (approximate_mode permutation cc n_draws rng)) = length cc"
    and "sum_list (fst (approximate_mode permutation cc n_draws rng)) = n_draws"
    and "\<forall>i < length cc. fst (approximate_mode permutation cc n_draws rng) ! i \<le> cc ! i"
proof -
  define N where "N = sum_list cc"
  define cont :: "rat list"
    where "cont = map (\<lambda>c. of_nat c / of_nat N * of_nat n_draws) cc"
  define fl where "fl = map (\<lambda>x. nat \<lfloor>x\<rfloor>) cont"
  define rm where "rm = map (\<lambda>x. x - of_int \<lfloor>x\<rfloor>) cont"
  define vs where "vs = rev (sort (remdups rm))"
  define need where "need = int n_draws - int (sum_list fl)"
  have Npos: "0 < N" using assms(2) by (simp add: N_def)
  have am: "approximate_mode permutation cc n_draws rng =
      (if need > 0 then add_by_remainder permutation rm vs (nat need) fl rng else (fl, rng))"
    by (simp add: approximate_mode_def Let_def N_def cont_def fl_def rm_def vs_def need_def)
  have len: "length cont = length cc" "length fl = length cc" "length rm = length cc"
    by (simp_all add: cont_def fl_def rm_def)
  have cont_nth: "cont ! i = of_nat (cc ! i) / of_nat N * of_nat n_draws" if "i < length cc" for i
    using that by (simp add: cont_def)
  have cont_nonneg: "0 \<le> x" if "x \<in> set cont" for x
    using that by (auto simp: cont_def)
  have cont_le: "cont ! i \<le> of_nat (cc ! i)" if "i < length cc" for i
  proof -
    have "(of_nat n_draws :: rat) \<le> of_nat N" using assms(3) by (simp add: N_def)
    then have "(of_nat n_draws :: rat) / of_nat N \<le> 1" using Npos by simp
    then have "of_nat (cc ! i) * ((of_nat n_draws :: rat) / of_nat N) \<le> of_nat (cc ! i) * 1"
      by (intro mult_left_mono) simp_all
    then show ?thesis by (simp add: cont_nth[OF that])
  qed
  have sum_cont: "sum_list cont = of_nat n_draws"
  proof -
    have "sum_list cont = (\<Sum>c\<leftarrow>cc. of_nat c * ((of_nat n_draws :: rat) / of_nat N))"
      by (simp add: cont_def)
    also have "\<dots> = sum_list (map of_nat cc) * ((of_nat n_draws :: rat) / of_nat N)"
      by (rule sum_list_mult_const)
    also have "\<dots> = of_nat N * ((of_nat n_draws :: rat) / of_nat N)"
      by (simp add: sum_list_of_nat N_def)
    also have "\<dots> = of_nat n_draws" using Npos by simp
    finally show ?thesis .
  qed
  have fl_rat: "map (of_nat :: nat \<Rightarrow> rat) fl = map (\<lambda>x. of_int \<lfloor>x\<rfloor>) cont"
    unfolding fl_def using cont_nonneg by (simp add: comp_def cong: map_cong)
  have rm_range: "0 \<le> r \<and> r < 1" if "r \<in> set rm" for r
  proof -
    have "r \<in> (\<lambda>x. x - of_int \<lfloor>x\<rfloor>) ` set cont" using that by (simp add: rm_def)
    then obtain x where "r = x - of_int \<lfloor>x\<rfloor>" by blast
    then show ?thesis by simp linarith
  qed
  have sum_rm: "sum_list rm = of_nat n_draws - of_nat (sum_list fl)"
  proof -
    have "sum_list rm + sum_list (map (\<lambda>x. of_int \<lfloor>x\<rfloor>) cont) = sum_list cont"
      unfolding rm_def by (simp add: sum_list_addf[symmetric])
    then have "sum_list rm + of_nat (sum_list fl) = sum_list cont"
      using fl_rat by (metis sum_list_of_nat)
    then show ?thesis by (simp add: sum_cont)
  qed
  have need_rat: "(of_int need :: rat) = sum_list rm"
    by (simp add: need_def sum_rm)
  have "0 \<le> sum_list rm" using rm_range by (intro sum_list_nonneg) simp
  then have need_nonneg: "0 \<le> need" using need_rat by (metis of_int_0_le_iff)
  have fl_le: "fl ! i \<le> cc ! i" if "i < length cc" for i
  proof -
    have "\<lfloor>cont ! i\<rfloor> \<le> int (cc ! i)"
      using cont_le[OF that] by (simp add: floor_le_iff)
    then show ?thesis using that len by (simp add: fl_def)
  qed
  show "length (fst (approximate_mode permutation cc n_draws rng)) = length cc"
    by (simp add: am abr_length len)
  have main: "sum_list (fst (approximate_mode permutation cc n_draws rng)) = n_draws \<and>
      (\<forall>i < length cc. fst (approximate_mode permutation cc n_draws rng) ! i \<le> cc ! i)"
    proof (cases "need > 0")
      case False
      then have "need = 0" using need_nonneg by simp
      then have "sum_list fl = n_draws" by (simp add: need_def)
      then show ?thesis using False fl_le by (simp add: am)
    next
      case True
      define vs1 where "vs1 = filter (\<lambda>v. 0 < v) vs"
      define vs2 where "vs2 = filter (\<lambda>v. \<not> 0 < v) vs"
      have "sorted (rev vs)" by (simp add: vs_def)
      then have split_vs: "vs = vs1 @ vs2"
        unfolding vs1_def vs2_def by (rule descending_split)
      have d1: "distinct vs1" by (simp add: vs1_def vs_def)
      have s1: "set vs1 = {v \<in> set rm. 0 < v}" by (auto simp: vs1_def vs_def)
      have "{i. i < length rm \<and> rm ! i \<in> set vs1} = {i. i < length rm \<and> 0 < rm ! i}"
        by (auto simp: s1)
      then have off: "offered rm vs1 = length (filter (\<lambda>r. 0 < r) rm)"
        by (simp add: offered_distinct[OF d1] card_positive_positions)
      have "(of_nat (nat need) :: rat) = sum_list rm"
        using need_rat True by (metis less_imp_le of_nat_nat)
      also have "\<dots> \<le> of_nat (length (filter (\<lambda>r. 0 < r) rm))"
        using rm_range by (intro sum_fractions_le) simp
      finally have fits: "nat need \<le> offered rm vs1"
        by (simp add: off)
      have pos: "0 < nat need" using True by simp
      have res: "approximate_mode permutation cc n_draws rng =
          add_by_remainder permutation rm vs1 (nat need) fl rng"
        using True by (simp add: am split_vs abr_prefix[OF pos fits])
      have lfr: "length fl = length rm" by (simp add: len)
      have "sum_list (fst (add_by_remainder permutation rm vs1 (nat need) fl rng)) =
          sum_list fl + nat need"
        by (rule abr_sum[OF assms(1) lfr fits])
      then have sum: "sum_list (fst (approximate_mode permutation cc n_draws rng)) = n_draws"
        using True need_nonneg by (simp add: res need_def)
      have bound: "fst (approximate_mode permutation cc n_draws rng) ! i \<le> cc ! i"
        if i: "i < length cc" for i
      proof -
        have il: "i < length fl" using i len by simp
        from abr_nth[OF assms(1) lfr d1 il, of "nat need" rng]
        consider "fst (approximate_mode permutation cc n_draws rng) ! i = fl ! i"
          | "fst (approximate_mode permutation cc n_draws rng) ! i = fl ! i + 1" "rm ! i \<in> set vs1"
          unfolding res by blast
        then show ?thesis
        proof cases
          case 1
          then show ?thesis using fl_le[OF i] by simp
        next
          case 2
          have "0 < rm ! i" using 2(2) s1 by simp
          then have nint: "cont ! i \<noteq> of_int \<lfloor>cont ! i\<rfloor>"
            using i len by (auto simp: rm_def)
          have "cont ! i \<noteq> of_nat (cc ! i)"
          proof
            assume e: "cont ! i = of_nat (cc ! i)"
            have "of_int \<lfloor>cont ! i\<rfloor> = cont ! i"
              unfolding e by (simp only: floor_of_nat of_int_of_nat_eq)
            then show False using nint by metis
          qed
          then have "cont ! i < of_nat (cc ! i)" using cont_le[OF i] by simp
          then have "\<lfloor>cont ! i\<rfloor> < int (cc ! i)" by (simp add: floor_less_iff)
          moreover have "0 \<le> \<lfloor>cont ! i\<rfloor>"
            using cont_nonneg[of "cont ! i"] i len by simp
          ultimately have "nat \<lfloor>cont ! i\<rfloor> + 1 \<le> cc ! i" by linarith
          then have "fl ! i + 1 \<le> cc ! i" using i len by (simp add: fl_def)
          then show ?thesis using 2(1) by simp
        qed
      qed
      show ?thesis using sum bound by blast
    qed
  show "sum_list (fst (approximate_mode permutation cc n_draws rng)) = n_draws"
    using main by blast
  show "\<forall>i < length cc. fst (approximate_mode permutation cc n_draws rng) ! i \<le> cc ! i"
    using main by blast
qed

lemma approximate_mode_exact:
  assumes "sum_list cc = n" and "0 < n"
  shows "approximate_mode permutation cc n rng = (cc, rng)"
proof -
  have "(of_nat c :: rat) / of_nat n * of_nat n = of_nat c" for c
    using assms(2) by simp
  then have fl: "map (\<lambda>x. nat \<lfloor>x\<rfloor>) (map (\<lambda>c. (of_nat c :: rat) / of_nat n * of_nat n) cc) = cc"
    by (simp add: comp_def map_idI)
  show ?thesis
    unfolding approximate_mode_def Let_def assms(1) fl
    by (simp add: assms(1))
qed

text \<open>The loop over the classes moves every position of the classes it visits.\<close>

lemma take_take_drop:
  assumes "n + t = length xs"
  shows "mset (take n xs) + mset (take t (drop n xs)) = mset xs"
proof -
  have "take t (drop n xs) = drop n xs" using assms by simp
  then have "mset (take n xs) + mset (take t (drop n xs)) = mset (take n xs @ drop n xs)"
    by (simp only: mset_append)
  then show ?thesis by (simp only: append_take_drop_id)
qed

lemma split_classes_mset:
  assumes "permutes permutation"
    and "\<forall>i \<in> set js. class_counts ! i = length (class_indices ! i) \<and>
            n_i ! i + t_i ! i = class_counts ! i"
  shows "mset (fst (split_classes permutation class_counts class_indices n_i t_i js train test rng)) +
         mset (fst (snd (split_classes permutation class_counts class_indices n_i t_i js train test rng))) =
         mset train + mset test + (\<Sum>i\<leftarrow>js. mset (class_indices ! i))"
  using assms(2)
proof (induction js arbitrary: train test rng)
  case Nil
  show ?case by simp
next
  case (Cons i js)
  define ci where "ci = class_indices ! i"
  define p where "p = fst (permutation rng (class_counts ! i))"
  define pic where "pic = map (\<lambda>j. ci ! min j (length ci - 1)) p"
  have cnt: "class_counts ! i = length ci" and tot: "n_i ! i + t_i ! i = length ci"
    using Cons.prems by (auto simp: ci_def)
  have "set p = {..<length ci}"
    using permutes_props(2)[OF assms(1)] cnt by (simp add: p_def)
  then have e: "pic = map (\<lambda>j. ci ! j) p"
    unfolding pic_def by (intro map_cong) auto
  have pic: "mset pic = mset ci"
    unfolding e p_def cnt by (rule permuted_list[OF assms(1)])
  have "length pic = length ci"
    using permutes_props(3)[OF assms(1)] cnt by (simp add: pic_def p_def)
  then have "n_i ! i + t_i ! i = length pic" using tot by simp
  then have parts: "mset (take (n_i ! i) pic) + mset (take (t_i ! i) (drop (n_i ! i) pic)) = mset ci"
    using take_take_drop[of "n_i ! i" "t_i ! i" pic] pic by simp
  have rest: "\<forall>i \<in> set js. class_counts ! i = length (class_indices ! i) \<and>
      n_i ! i + t_i ! i = class_counts ! i"
    using Cons.prems by simp
  have step: "split_classes permutation class_counts class_indices n_i t_i (i # js) train test rng =
      split_classes permutation class_counts class_indices n_i t_i js
        (train @ take (n_i ! i) pic) (test @ take (t_i ! i) (drop (n_i ! i) pic))
        (snd (permutation rng (class_counts ! i)))"
    by (simp add: Let_def pic_def p_def ci_def)
  have "mset (train @ take (n_i ! i) pic) + mset (test @ take (t_i ! i) (drop (n_i ! i) pic)) =
      mset train + mset test + mset ci"
    using parts by (simp only: mset_append) (metis (no_types) add.assoc add.left_commute)
  then show ?case
    unfolding step Cons.IH[OF rest] by (simp add: ci_def)
qed

text \<open>The positions of the classes partition the positions of the column.\<close>

lemma class_positions_length:
  "length (filter (\<lambda>i. y ! i = c) [0..<length y]) = count_list y c"
proof -
  have "length (filter (\<lambda>i. y ! i = c) [0..<length y]) =
        length (filter (\<lambda>x. x = c) (map (\<lambda>i. y ! i) [0..<length y]))"
    by (simp add: filter_map comp_def)
  also have "\<dots> = length (filter (\<lambda>x. x = c) y)"
    by (simp add: map_nth)
  also have "\<dots> = count_list y c"
    by (induction y) auto
  finally show ?thesis .
qed

lemma class_positions_gen:
  assumes "distinct cs"
  shows "(\<Sum>c\<leftarrow>cs. mset (filter (\<lambda>i. f i = c) xs)) = mset (filter (\<lambda>i. f i \<in> set cs) xs)"
  using assms
proof (induction cs)
  case Nil
  show ?case by simp
next
  case (Cons c cs)
  have "mset (filter (\<lambda>i. f i = c) xs) + mset (filter (\<lambda>i. f i \<in> set cs) xs) =
      mset (filter (\<lambda>i. f i \<in> set (c # cs)) xs)"
    using Cons.prems by (induction xs) auto
  then show ?case using Cons by simp
qed

lemma class_positions_partition:
  assumes "distinct classes" and "set y \<subseteq> set classes"
  shows "(\<Sum>c\<leftarrow>classes. mset (filter (\<lambda>i. y ! i = c) [0..<length y])) = mset [0..<length y]"
proof -
  have "filter (\<lambda>i. y ! i \<in> set classes) [0..<length y] = [0..<length y]"
    using assms(2) by (auto simp: filter_id_conv)
  then show ?thesis
    using class_positions_gen[OF assms(1), of "\<lambda>i. y ! i" "[0..<length y]"] by simp
qed

lemma sum_indicator_absent:
  assumes "a \<notin> set cs"
  shows "(\<Sum>c\<leftarrow>cs. if a = c then 1 else 0) = (0::nat)"
  using assms by (induction cs) auto

lemma sum_indicator_distinct:
  assumes "distinct cs" and "a \<in> set cs"
  shows "(\<Sum>c\<leftarrow>cs. if a = c then 1 else 0) = (1::nat)"
  using assms by (induction cs) (auto simp: sum_indicator_absent)

lemma sum_count_classes:
  assumes "distinct classes" and "set y \<subseteq> set classes"
  shows "sum_list (map (count_list y) classes) = length y"
  using assms(2)
proof (induction y)
  case Nil
  show ?case by simp
next
  case (Cons a y)
  have "sum_list (map (count_list (a # y)) classes) =
      (\<Sum>c\<leftarrow>classes. count_list y c + (if a = c then 1 else 0))"
    by (intro arg_cong[where f = sum_list] map_cong) auto
  also have "\<dots> = sum_list (map (count_list y) classes) + (\<Sum>c\<leftarrow>classes. if a = c then 1 else 0)"
    by (simp add: sum_list_addf)
  also have "\<dots> = length (a # y)"
    using Cons sum_indicator_distinct[OF assms(1), of a] by simp
  finally show ?case .
qed

lemma sum_list_pointwise_diff:
  assumes "length ns = length cs" and "\<forall>i < length cs. ns ! i \<le> cs ! i"
  shows "sum_list (map (\<lambda>(c, n). c - n) (zip cs ns)) = sum_list cs - sum_list (ns :: nat list) \<and>
         sum_list ns \<le> sum_list cs"
  using assms
proof (induction ns cs rule: list_induct2)
  case Nil
  show ?case by simp
next
  case (Cons n ns c cs)
  have "n \<le> c" using Cons.prems by auto
  moreover have "\<forall>i < length cs. ns ! i \<le> cs ! i" using Cons.prems by auto
  ultimately show ?case using Cons.IH by simp
qed

lemma split_classes_lengths:
  assumes "permutes permutation"
    and "\<forall>i \<in> set js. class_counts ! i = length (class_indices ! i) \<and>
            n_i ! i + t_i ! i = class_counts ! i"
  shows "length (fst (split_classes permutation class_counts class_indices n_i t_i js train test rng)) =
           length train + (\<Sum>i\<leftarrow>js. n_i ! i)"
  using assms(2)
proof (induction js arbitrary: train test rng)
  case Nil
  show ?case by simp
next
  case (Cons i js)
  have "length (fst (permutation rng (class_counts ! i))) = class_counts ! i"
    by (rule permutes_props(3)[OF assms(1)])
  moreover have "n_i ! i \<le> class_counts ! i" using Cons.prems by auto
  moreover have "\<forall>i \<in> set js. class_counts ! i = length (class_indices ! i) \<and>
      n_i ! i + t_i ! i = class_counts ! i"
    using Cons.prems by simp
  ultimately show ?case
    using Cons.IH by (simp add: Let_def)
qed

text \<open>
  A stratified shuffle split that returns puts every position into exactly one of the two
  index lists, and the train list has the requested size.
\<close>

lemma stratified_shuffle_split_partition:
  assumes "permutes permutation"
    and "stratified_shuffle_split permutation rng y n_train n_test = Inr (train, test)"
    and "n_train + n_test = length y"
  shows "mset train + mset test = mset [0..<length y]" and "length train = n_train"
proof -
  define classes where "classes = sort (remdups y)"
  define cc where "cc = map (count_list y) classes"
  define class_indices where
    "class_indices = map (\<lambda>c. filter (\<lambda>i. y ! i = c) [0..<length y]) classes"
  define n_i where "n_i = approximate_mode permutation cc n_train rng"
  define ccr where "ccr = map (\<lambda>(c, n). c - n) (zip cc (fst n_i))"
  define t_i where "t_i = approximate_mode permutation ccr n_test (snd n_i)"
  define s where "s = split_classes permutation cc class_indices (fst n_i) (fst t_i)
      [0..<length classes] [] [] (snd t_i)"
  define p_train where "p_train = permutation (snd (snd s)) (length (fst s))"
  define p_test where "p_test = permutation (snd p_train) (length (fst (snd s)))"
  have ok: "cc \<noteq> []" "length classes \<le> n_train" "length classes \<le> n_test"
    and res: "train = map (\<lambda>j. fst s ! j) (fst p_train)"
      "test = map (\<lambda>j. fst (snd s) ! j) (fst p_test)"
    using assms(2)
    unfolding stratified_shuffle_split_def Let_def classes_def[symmetric] cc_def[symmetric]
      class_indices_def[symmetric] n_i_def[symmetric] ccr_def[symmetric] t_i_def[symmetric]
      s_def[symmetric] p_train_def[symmetric] p_test_def[symmetric]
    by (auto split: if_splits)
  have dc: "distinct classes" and sc: "set y \<subseteq> set classes"
    by (simp_all add: classes_def)
  have sum_cc: "sum_list cc = length y"
    unfolding cc_def by (rule sum_count_classes[OF dc sc])
  have len_cc: "length cc = length classes" by (simp add: cc_def)
  show "mset train + mset test = mset [0..<length y]" and "length train = n_train"
  proof -
    have both: "mset train + mset test = mset [0..<length y] \<and> length train = n_train"
    proof (cases "y = []")
      case True
      then have "cc = []" by (simp add: cc_def classes_def)
      then show ?thesis using ok(1) by simp
    next
      case False
      then have ypos: "0 < length y" by simp
      then have Npos: "0 < sum_list cc" by (simp add: sum_cc)
      have "classes \<noteq> []" using False sc by auto
      then have "0 < n_test" using ok(3) by (cases classes) auto
      have ntr: "n_train \<le> sum_list cc" using assms(3) by (simp add: sum_cc)
      note A = approximate_mode_props[OF assms(1) Npos ntr, of rng, folded n_i_def]
      have len_ni: "length (fst n_i) = length cc" using A(1) .
      have D: "sum_list ccr = sum_list cc - sum_list (fst n_i)"
        unfolding ccr_def using sum_list_pointwise_diff[OF len_ni A(3)] by blast
      have sum_ccr: "sum_list ccr = n_test"
        using D A(2) assms(3) by (simp add: sum_cc)
      have t_eq: "fst t_i = ccr"
        unfolding t_i_def approximate_mode_exact[OF sum_ccr \<open>0 < n_test\<close>] by simp
      have ccr_nth: "ccr ! i = cc ! i - fst n_i ! i" if "i < length classes" for i
        using that len_ni len_cc by (simp add: ccr_def)
      have cond: "\<forall>i \<in> set [0..<length classes].
          cc ! i = length (class_indices ! i) \<and> fst n_i ! i + fst t_i ! i = cc ! i"
      proof
        fix i assume "i \<in> set [0..<length classes]"
        then have i: "i < length classes" by simp
        have "cc ! i = length (class_indices ! i)"
          using i by (simp add: cc_def class_indices_def class_positions_length)
        moreover have "fst n_i ! i \<le> cc ! i" using A(3) i len_cc by simp
        ultimately show "cc ! i = length (class_indices ! i) \<and> fst n_i ! i + fst t_i ! i = cc ! i"
          by (simp add: t_eq ccr_nth[OF i])
      qed
      have "(\<Sum>i\<leftarrow>[0..<length classes]. mset (class_indices ! i)) =
          (\<Sum>ci\<leftarrow>map (\<lambda>i. class_indices ! i) [0..<length class_indices]. mset ci)"
        by (simp add: comp_def class_indices_def)
      also have "\<dots> = (\<Sum>ci\<leftarrow>class_indices. mset ci)"
        by (simp only: map_nth)
      also have "\<dots> = (\<Sum>c\<leftarrow>classes. mset (filter (\<lambda>i. y ! i = c) [0..<length y]))"
        by (simp add: class_indices_def comp_def)
      also have "\<dots> = mset [0..<length y]"
        by (rule class_positions_partition[OF dc sc])
      finally have all: "(\<Sum>i\<leftarrow>[0..<length classes]. mset (class_indices ! i)) = mset [0..<length y]" .
      have "mset (fst s) + mset (fst (snd s)) = mset [0..<length y]"
        unfolding s_def split_classes_mset[OF assms(1) cond] all by simp
      moreover have "mset train = mset (fst s)"
        unfolding res p_train_def by (rule permuted_list[OF assms(1)])
      moreover have "mset test = mset (fst (snd s))"
        unfolding res p_test_def by (rule permuted_list[OF assms(1)])
      ultimately have m: "mset train + mset test = mset [0..<length y]" by simp
      have "(\<Sum>i\<leftarrow>[0..<length classes]. fst n_i ! i) = sum_list (fst n_i)"
        using len_ni len_cc by (metis map_nth)
      then have "length (fst s) = n_train"
        unfolding s_def split_classes_lengths[OF assms(1) cond] using A(2) by simp
      moreover have "length train = length (fst s)"
        unfolding res p_train_def by (simp add: permutes_props(3)[OF assms(1)])
      ultimately show ?thesis using m by simp
    qed
    show "mset train + mset test = mset [0..<length y]" using both by blast
    show "length train = n_train" using both by blast
  qed
qed

lemma validate_shuffle_split_sizes:
  assumes "validate_shuffle_split n = Inr (n_train, n_test)"
  shows "n_test = nat \<lceil>(3 / 10 :: rat) * of_nat n\<rceil>" and "n_train + n_test = n" and "0 < n_train"
  using assms by (auto simp: validate_shuffle_split_def Let_def split: if_splits)

text \<open>
  A split that returns: every row of the table is in exactly one of the two outputs, as
  often as it is in the table, and the test set has the ceiling of 0.30 times the rows.
\<close>

lemma train_test_split_partition:
  assumes "permutes permutation"
    and "train_test_split permutation rng table y = Inr (train_set, test_set)"
  shows "mset train_set + mset test_set = mset table"
    and "length test_set = nat \<lceil>(3 / 10 :: rat) * of_nat (length table)\<rceil>"
    and "length train_set + length test_set = length table"
    and "0 < length train_set"
proof -
  obtain n_train n_test where v: "validate_shuffle_split (length table) = Inr (n_train, n_test)"
    using assms(2) by (auto simp: train_test_split_def split: sum.splits)
  note V = validate_shuffle_split_sizes[OF v]
  have ly: "length y = length table"
    using assms(2) by (auto simp: train_test_split_def v split: if_splits)
  obtain train test where
    s: "stratified_shuffle_split permutation rng y n_train n_test = Inr (train, test)"
    and out: "train_set = map (\<lambda>i. table ! i) train" "test_set = map (\<lambda>i. table ! i) test"
    using assms(2) by (auto simp: train_test_split_def v ly split: sum.splits)
  have tot: "n_train + n_test = length y" using V(2) ly by simp
  note P = stratified_shuffle_split_partition[OF assms(1) s tot]
  have "mset train_set + mset test_set = image_mset (\<lambda>i. table ! i) (mset train + mset test)"
    by (simp add: out)
  also have "\<dots> = mset (map (\<lambda>i. table ! i) [0..<length table])"
    by (simp only: P(1) ly mset_map)
  also have "\<dots> = mset table" by (simp only: map_nth)
  finally show m: "mset train_set + mset test_set = mset table" .
  have "size (mset train_set + mset test_set) = size (mset table)" by (simp only: m)
  then show l: "length train_set + length test_set = length table" by simp
  have ltr: "length train_set = n_train" using P(2) by (simp add: out)
  then show "0 < length train_set" using V(3) by simp
  show "length test_set = nat \<lceil>(3 / 10 :: rat) * of_nat (length table)\<rceil>"
    using l ltr V by simp
qed

section \<open>The identifiers along the pipeline\<close>

text \<open>
  The identifiers stay unique along the pipeline: the join of frames with unique
  identifiers has unique identifiers, and the filters, the cleaning and the validation
  only remove rows.
\<close>

lemma fuv_rows_filter:
  "\<exists>P. rows (snd (filter_unrealistic_values df vr)) = filter P (rows df)"
proof (induction vr arbitrary: df)
  case Nil
  have "rows df = filter (\<lambda>r. True) (rows df)" by simp
  then show ?case by (simp only: filter_unrealistic_values.simps snd_conv) blast
next
  case (Cons e vr)
  obtain P where P: "rows (snd (filter_unrealistic_values (keep_step df e) vr)) =
      filter P (rows (keep_step df e))"
    using Cons.IH by blast
  obtain Q where Q: "rows (keep_step df e) = filter Q (rows df)"
  proof (cases e)
    case (fields c lo hi)
    show ?thesis
    proof (cases "c \<in> set (columns df)")
      case True
      then have "rows (keep_step df e) = filter (keep_mask c lo hi) (rows df)"
        by (simp add: keep_step_def fields)
      then show ?thesis using that by blast
    next
      case False
      then have "rows (keep_step df e) = filter (\<lambda>r. True) (rows df)"
        by (simp add: keep_step_def fields)
      then show ?thesis using that by blast
    qed
  qed
  have "rows (snd (filter_unrealistic_values df (e # vr))) = filter (\<lambda>r. Q r \<and> P r) (rows df)"
    by (simp only: fuv_snd_Cons P Q filter_filter)
  then show ?case by blast
qed

lemma ids_drop_columns:
  assumes "''id'' \<notin> set cs"
  shows "ids (drop_columns cs df) = ids df"
proof -
  have "map_of (filter (\<lambda>(c, v). c \<notin> set cs) xs) ''id'' = map_of xs ''id''"
    for xs :: "(string \<times> cell) list"
    using assms by (induction xs) auto
  then show ?thesis
    by (simp add: ids_def drop_columns_def cell_at_def comp_def)
qed

lemma validated_ids_distinct:
  assumes "distinct (ids merged)"
  shows "distinct (ids (validated_health_data (cleaned_health_data (filtered_health_data merged))))"
proof -
  have f: "distinct (ids (filtered_health_data merged))"
    using assms by (simp add: ids_def filtered_health_data_def Let_def distinct_map_filter)
  have "distinct (ids (drop_columns [''pregnancy_status'', ''amputation''] (filtered_health_data merged)))"
    using f by (simp add: ids_drop_columns)
  then have c: "distinct (ids (cleaned_health_data (filtered_health_data merged)))"
    by (simp add: ids_def cleaned_health_data_def dropna_def distinct_map_filter)
  obtain P where "rows (validated_health_data (cleaned_health_data (filtered_health_data merged))) =
      filter P (rows (cleaned_health_data (filtered_health_data merged)))"
    unfolding validated_health_data_def using fuv_rows_filter by blast
  then show ?thesis
    using c by (simp add: ids_def distinct_map_filter)
qed

lemma merged_ids_distinct:
  assumes "merged_health_data body_measurements demographic_data aggregated = Inr merged"
    and "distinct (ids body_measurements)" and "distinct (ids demographic_data)"
    and "distinct (ids aggregated)"
  shows "distinct (ids merged)"
proof -
  obtain m where m: "merge body_measurements demographic_data ''id'' = Inr m"
    and out: "merge m aggregated ''id'' = Inr merged"
    using assms(1) by (auto simp: merged_health_data_def split: sum.splits)
  show ?thesis
    using assms(2)
    by (simp add: ids_merge_distinct[OF out assms(4)] ids_merge_distinct[OF m assms(3)])
qed

lemma aggregated_ids_distinct: "distinct (ids (aggregated_lean_fat_df filtered))"
  unfolding ids_def aggregated_ids by (simp add: distinct_map inj_on_def)

lemma subject_id_with_stratify_group:
  "map subject_id (with_stratify_group fstr df) = ids df"
  by (simp add: with_stratify_group_def subject_id_def ids_def comp_def)

lemma pipeline_ids_distinct:
  assumes "merged_health_data body_measurements demographic_data
             (aggregated_lean_fat_df filtered) = Inr merged"
    and "distinct (ids body_measurements)" and "distinct (ids demographic_data)"
  shows "distinct (map subject_id (with_stratify_group fstr
           (validated_health_data (cleaned_health_data (filtered_health_data merged)))))"
  unfolding subject_id_with_stratify_group
  by (rule validated_ids_distinct[OF merged_ids_distinct[OF assms aggregated_ids_distinct]])

section \<open>Claims about the stratified split\<close>

lemma collapse_rare_base: "map base (collapse_rare t) = map base t"
  by (simp add: collapse_rare_def Let_def comp_def)

lemma collapse_rare_subject_id: "map subject_id (collapse_rare t) = map subject_id t"
proof -
  have "map subject_id (collapse_rare t) = map (\<lambda>r. cell_at r ''id'') (map base (collapse_rare t))"
    by (simp add: subject_id_def comp_def)
  also have "\<dots> = map subject_id t"
    by (simp only: collapse_rare_base) (simp add: subject_id_def comp_def)
  finally show ?thesis .
qed

text \<open>
  C6. Whenever the stratified 70/30 split of a table returns its two outputs (it raises
  on the tables that its size and class checks refuse), the identifiers of the two
  outputs together are, as a multiset, exactly the identifiers of the table, and so are
  the rows; the test set has the ceiling of 0.30 times the rows and the train set the
  rest. When the identifiers of the table are unique, no identifier appears in both
  outputs; the table of the pipeline has unique identifiers when the measurement and the
  demographic table have (\<open>pipeline_ids_distinct\<close>). The pseudo-random generator may be
  any generator whose \<open>permutation\<close> returns permutations.
\<close>

theorem split_partitions_identifiers:
  assumes "permutes permutation"
    and "split_validated permutation rng t = Inr (train_set, test_set)"
  shows "mset (map subject_id train_set) + mset (map subject_id test_set) = mset (map subject_id t) \<and>
         mset (map base train_set) + mset (map base test_set) = mset (map base t) \<and>
         (distinct (map subject_id t) \<longrightarrow>
            set (map subject_id train_set) \<inter> set (map subject_id test_set) = {}) \<and>
         length test_set = nat \<lceil>(3 / 10 :: rat) * of_nat (length t)\<rceil> \<and>
         length train_set + length test_set = length t"
proof -
  have s: "train_test_split permutation rng (collapse_rare t)
      (map stratify_group (collapse_rare t)) = Inr (train_set, test_set)"
    using assms(2) by (simp add: split_validated_def)
  note P = train_test_split_partition[OF assms(1) s]
  have lt: "length (collapse_rare t) = length t"
    by (simp add: collapse_rare_def Let_def)
  have "mset (map subject_id train_set) + mset (map subject_id test_set) =
      image_mset subject_id (mset train_set + mset test_set)"
    by simp
  also have "\<dots> = mset (map subject_id (collapse_rare t))"
    by (simp only: P(1) mset_map)
  finally have ids_eq: "mset (map subject_id train_set) + mset (map subject_id test_set) =
      mset (map subject_id t)"
    by (simp only: collapse_rare_subject_id)
  have "mset (map base train_set) + mset (map base test_set) =
      image_mset base (mset train_set + mset test_set)"
    by simp
  also have "\<dots> = mset (map base (collapse_rare t))"
    by (simp only: P(1) mset_map)
  finally have rows_eq: "mset (map base train_set) + mset (map base test_set) = mset (map base t)"
    by (simp only: collapse_rare_base)
  have disj: "set (map subject_id train_set) \<inter> set (map subject_id test_set) = {}"
    if d: "distinct (map subject_id t)"
  proof -
    have "mset (map subject_id train_set @ map subject_id test_set) = mset (map subject_id t)"
      using ids_eq by simp
    then have "distinct (map subject_id train_set @ map subject_id test_set)"
      using d by (metis mset_eq_imp_distinct_iff)
    then show ?thesis by simp
  qed
  show ?thesis
    using ids_eq rows_eq disj P(2,3) by (simp add: lt)
qed

lemma rev_permutation_permutes: "permutes rev_permutation"
  by (simp add: permutes_def rev_permutation_def)

lemma ex_validated_rows:
  "ex_validated =
     \<lparr>columns = [''id'', ''weight'', ''height'', ''bmi'', ''gender'', ''age_in_months'',
                  ''ethnicity''],
      rows = [ex_clean 0 1 186 1 22, ex_clean 1 2 190 1 23,
              ex_clean 2 3 300 2 27, ex_clean 3 4 310 2 28]\<rparr>"
  by code_simp

lemma ex_validated_split:
  "split_validated rev_permutation 0 (with_stratify_group ex_fstr ex_validated) =
     Inr ([\<lparr>base = ex_clean 1 2 190 1 23, age_group = None, bmi_group = ''Healthy Weight'',
             stratify_group = ''nan_1.0_3.0_Healthy Weight''\<rparr>,
           \<lparr>base = ex_clean 3 4 310 2 28, age_group = Some ''16-26'', bmi_group = ''Overweight'',
             stratify_group = ''16-26_2.0_3.0_Overweight''\<rparr>],
          [\<lparr>base = ex_clean 0 1 186 1 22, age_group = None, bmi_group = ''Healthy Weight'',
             stratify_group = ''nan_1.0_3.0_Healthy Weight''\<rparr>,
           \<lparr>base = ex_clean 2 3 300 2 27, age_group = Some ''16-26'', bmi_group = ''Overweight'',
             stratify_group = ''16-26_2.0_3.0_Overweight''\<rparr>])"
  by code_simp

theorem split_partitions_identifiers_witness:
  "permutes rev_permutation \<and>
   (\<exists>train_set test_set.
      split_validated rev_permutation 0 (with_stratify_group ex_fstr ex_validated) =
        Inr (train_set, test_set) \<and>
      map subject_id train_set = [Num 2, Num 4] \<and>
      map subject_id test_set = [Num 1, Num 3] \<and>
      map subject_id (with_stratify_group ex_fstr ex_validated) = [Num 1, Num 2, Num 3, Num 4] \<and>
      mset (map subject_id train_set) + mset (map subject_id test_set) =
        mset (map subject_id (with_stratify_group ex_fstr ex_validated)) \<and>
      set (map subject_id train_set) \<inter> set (map subject_id test_set) = {} \<and>
      length test_set = 2 \<and> length train_set = 2)"
proof -
  let ?t = "with_stratify_group ex_fstr ex_validated"
  let ?train = "[\<lparr>base = ex_clean 1 2 190 1 23, age_group = None, bmi_group = ''Healthy Weight'',
             stratify_group = ''nan_1.0_3.0_Healthy Weight''\<rparr>,
           \<lparr>base = ex_clean 3 4 310 2 28, age_group = Some ''16-26'', bmi_group = ''Overweight'',
             stratify_group = ''16-26_2.0_3.0_Overweight''\<rparr>]"
  let ?test = "[\<lparr>base = ex_clean 0 1 186 1 22, age_group = None, bmi_group = ''Healthy Weight'',
             stratify_group = ''nan_1.0_3.0_Healthy Weight''\<rparr>,
           \<lparr>base = ex_clean 2 3 300 2 27, age_group = Some ''16-26'', bmi_group = ''Overweight'',
             stratify_group = ''16-26_2.0_3.0_Overweight''\<rparr>]"
  have ids: "map subject_id ?t = [Num 1, Num 2, Num 3, Num 4]"
    by (simp add: ex_validated_rows with_stratify_group_def subject_id_def ex_clean_def cell_at_def)
  have tr: "map subject_id ?train = [Num 2, Num 4]"
    by (simp add: subject_id_def ex_clean_def cell_at_def)
  have te: "map subject_id ?test = [Num 1, Num 3]"
    by (simp add: subject_id_def ex_clean_def cell_at_def)
  have d: "distinct (map subject_id ?t)" by (simp add: ids)
  note T = split_partitions_identifiers[OF rev_permutation_permutes ex_validated_split]
  have m: "mset (map subject_id ?train) + mset (map subject_id ?test) = mset (map subject_id ?t)"
    using T by blast
  have dj: "set (map subject_id ?train) \<inter> set (map subject_id ?test) = {}"
    using T d by blast
  show ?thesis
    using rev_permutation_permutes ex_validated_split ids tr te m dj by simp
qed

lemma split_validated_bases:
  assumes "permutes permutation"
    and "split_validated permutation rng t = Inr (train_set, test_set)"
  shows "mset (map base train_set) + mset (map base test_set) = mset (map base t)"
proof -
  have s: "train_test_split permutation rng (collapse_rare t)
      (map stratify_group (collapse_rare t)) = Inr (train_set, test_set)"
    using assms(2) by (simp add: split_validated_def)
  have "mset (map base train_set) + mset (map base test_set) =
      image_mset base (mset train_set + mset test_set)"
    by simp
  also have "\<dots> = mset (map base (collapse_rare t))"
    by (simp only: train_test_split_partition(1)[OF assms(1) s] mset_map)
  finally show ?thesis by (simp only: collapse_rare_base)
qed

lemma with_stratify_group_base: "map base (with_stratify_group fstr df) = rows df"
  by (simp add: with_stratify_group_def comp_def)

text \<open>What the keys of the collapsed column are: the keys that occur twice or more, and Other.\<close>

lemma collapse_rare_keys:
  assumes "k \<in> set (map stratify_group (collapse_rare t))" and "k \<noteq> ''Other''"
  shows "2 \<le> count_list (map stratify_group t) k"
  using assms by (auto simp: collapse_rare_def Let_def split: if_splits)

text \<open>
  The fallback category is a class of the split like any other: when exactly one row is
  folded into it, the class check refuses the split.
\<close>

lemma validate_shuffle_split_two:
  assumes "2 \<le> n"
  shows "\<exists>n_train n_test. validate_shuffle_split n = Inr (n_train, n_test)"
proof -
  have "(3 / 10 :: rat) * of_nat n \<le> of_nat n - 1"
  proof -
    have "(2 :: rat) \<le> of_nat n" using assms by (metis of_nat_le_iff of_nat_numeral)
    then show ?thesis by simp
  qed
  also have "\<dots> = of_int (int n - 1)" by simp
  finally have "\<lceil>(3 / 10 :: rat) * of_nat n\<rceil> \<le> int n - 1"
    by (simp only: ceiling_le_iff)
  then have "nat \<lceil>(3 / 10 :: rat) * of_nat n\<rceil> < n" using assms by linarith
  then show ?thesis by (simp add: validate_shuffle_split_def Let_def)
qed

lemma lone_class_refused:
  assumes "count_list y k = 1"
  shows "stratified_shuffle_split permutation rng y n_train n_test = Inl Least_populated_class"
proof -
  let ?cc = "map (count_list y) (sort (remdups y))"
  have "k \<in> set y" using assms by (metis count_notin zero_neq_one)
  then have "1 \<in> set ?cc" using assms by force
  then have "Min (set ?cc) \<le> 1" by (intro Min_le) auto
  then have "Min (set ?cc) < 2" by simp
  then show ?thesis by (simp add: stratified_shuffle_split_def Let_def)
qed

lemma lone_other_split_fails:
  assumes "count_list (map stratify_group (collapse_rare t)) ''Other'' = 1" and "2 \<le> length t"
  shows "split_validated permutation rng t = Inl Least_populated_class"
proof -
  have "length (collapse_rare t) = length t" by (simp add: collapse_rare_def Let_def)
  then obtain n_train n_test where
    "validate_shuffle_split (length (collapse_rare t)) = Inr (n_train, n_test)"
    using validate_shuffle_split_two[OF assms(2)] by auto
  then show ?thesis
    by (simp add: split_validated_def train_test_split_def lone_class_refused[OF assms(1)])
qed

text \<open>
  C7. The code replaces every key that occurs fewer than 2 times by the fallback category
  Other, and a key that occurs once is never a group of its own. But where exactly one row
  has a key of its own the fallback category has one member, and the split fails with the
  error of the least populated class: in the frame of three subjects the third key occurs
  once and becomes Other, and the split is refused.
\<close>

theorem lone_key_split_fails:
  "map stratify_group (with_stratify_group ex_fstr ex_three) =
     [''16-26_1.0_3.0_Healthy Weight'', ''16-26_1.0_3.0_Healthy Weight'', ''46-56_2.0_3.0_Obese''] \<and>
   map stratify_group (collapse_rare (with_stratify_group ex_fstr ex_three)) =
     [''16-26_1.0_3.0_Healthy Weight'', ''16-26_1.0_3.0_Healthy Weight'', ''Other''] \<and>
   count_list (map stratify_group (collapse_rare (with_stratify_group ex_fstr ex_three))) ''Other'' = 1 \<and>
   validate_shuffle_split 3 = Inr (2, 1) \<and>
   split_validated rev_permutation 0 (with_stratify_group ex_fstr ex_three) =
     Inl Least_populated_class"
  by code_simp

text \<open>
  C10. A row of the validated table whose age in months over 12 lies in [15, 16) satisfies
  the age inclusion filter, which retains [15, 64), and lies below the first bin edge 16:
  its age band is missing and its stratification key starts with the text \<open>nan\<close> for
  the age band. The row stays in the table that is split, and whenever the split returns
  the row is in the train set or in the test set.
\<close>

theorem young_rows_unbanded_and_split:
  assumes "r \<in> set (rows validated)"
    and "cell_at r ''age_in_months'' = Num m"
    and "15 \<le> m / 12" and "m / 12 < 16"
  shows "age_mask r \<and> age_group_of r = None \<and>
         (\<exists>s \<in> set (with_stratify_group fstr validated).
            base s = r \<and> age_group s = None \<and>
            stratify_group s =
              ''nan'' @ ''_'' @ float_str fstr (cell_at r ''gender'') @ ''_'' @
              float_str fstr (cell_at r ''ethnicity'') @ ''_'' @ classify_bmi (cell_at r ''bmi'')) \<and>
         (\<forall>(permutation :: 'g permutation) rng train_set test_set.
            permutes permutation \<and>
            split_validated permutation rng (with_stratify_group fstr validated) =
              Inr (train_set, test_set) \<longrightarrow>
            r \<in> set (map base train_set) \<union> set (map base test_set))"
proof -
  have mask: "age_mask r"
    using assms(2,3,4) by (simp add: age_mask_def)
  have band: "age_group_of r = None"
    using assms(2,4) by (simp add: age_group_of_def age_bins_def age_labels_def)
  let ?s = "\<lparr>base = r, age_group = age_group_of r, bmi_group = classify_bmi (cell_at r ''bmi''),
      stratify_group = category_str (age_group_of r) @ ''_'' @
        float_str fstr (cell_at r ''gender'') @ ''_'' @
        float_str fstr (cell_at r ''ethnicity'') @ ''_'' @ classify_bmi (cell_at r ''bmi'')\<rparr>"
  have "?s \<in> set (with_stratify_group fstr validated)"
    using assms(1) by (simp add: with_stratify_group_def image_iff)
  moreover have "base ?s = r" "age_group ?s = None"
    "stratify_group ?s = ''nan'' @ ''_'' @ float_str fstr (cell_at r ''gender'') @ ''_'' @
       float_str fstr (cell_at r ''ethnicity'') @ ''_'' @ classify_bmi (cell_at r ''bmi'')"
    by (simp_all add: band category_str_def)
  ultimately have key: "\<exists>s \<in> set (with_stratify_group fstr validated).
      base s = r \<and> age_group s = None \<and>
      stratify_group s = ''nan'' @ ''_'' @ float_str fstr (cell_at r ''gender'') @ ''_'' @
        float_str fstr (cell_at r ''ethnicity'') @ ''_'' @ classify_bmi (cell_at r ''bmi'')"
    by blast
  have split: "r \<in> set (map base train_set) \<union> set (map base test_set)"
    if p: "permutes permutation"
      and s: "split_validated permutation rng (with_stratify_group fstr validated) =
        Inr (train_set, test_set)"
    for permutation :: "'g permutation" and rng train_set test_set
  proof -
    have "mset (map base train_set @ map base test_set) = mset (rows validated)"
      using split_validated_bases[OF p s] by (simp add: with_stratify_group_base)
    then have "set (map base train_set @ map base test_set) = set (rows validated)"
      by (rule mset_eq_setD)
    then show ?thesis using assms(1) by auto
  qed
  show ?thesis using mask band key split by blast
qed

theorem young_rows_unbanded_and_split_witness:
  "ex_clean 0 1 186 1 22 \<in> set (rows ex_validated) \<and>
   cell_at (ex_clean 0 1 186 1 22) ''age_in_months'' = Num 186 \<and>
   15 \<le> (186 :: rat) / 12 \<and> (186 :: rat) / 12 < 16 \<and>
   ex_subject 0 1 186 1 22 NaN \<in> set (rows (filtered_health_data ex_merged)) \<and>
   age_mask (ex_clean 0 1 186 1 22) \<and>
   age_group_of (ex_clean 0 1 186 1 22) = None \<and>
   (\<exists>s \<in> set (with_stratify_group ex_fstr ex_validated).
      base s = ex_clean 0 1 186 1 22 \<and> stratify_group s = ''nan_1.0_3.0_Healthy Weight'') \<and>
   (\<exists>train_set test_set.
      split_validated rev_permutation 0 (with_stratify_group ex_fstr ex_validated) =
        Inr (train_set, test_set) \<and>
      ex_clean 0 1 186 1 22 \<in> set (map base train_set) \<union> set (map base test_set))"
proof -
  let ?r = "ex_clean 0 1 186 1 22"
  have h1: "?r \<in> set (rows ex_validated)" by (simp add: ex_validated_rows)
  have h2: "cell_at ?r ''age_in_months'' = Num 186" by (simp add: ex_clean_def cell_at_def)
  have h3: "15 \<le> (186 :: rat) / 12" by simp
  have h4: "(186 :: rat) / 12 < 16" by simp
  have f: "ex_subject 0 1 186 1 22 NaN \<in> set (rows (filtered_health_data ex_merged))"
    by (simp add: filtered_health_data_def Let_def ex_merged_def ex_subject_def age_mask_def
        cell_at_def)
  have k: "float_str ex_fstr (cell_at ?r ''gender'') = ''1.0''"
    "float_str ex_fstr (cell_at ?r ''ethnicity'') = ''3.0''"
    "classify_bmi (cell_at ?r ''bmi'') = ''Healthy Weight''"
    by (simp_all add: ex_clean_def cell_at_def float_str_def ex_fstr_def classify_bmi_def)
  note T = young_rows_unbanded_and_split[where 'g = nat and fstr = ex_fstr, OF h1 h2 h3 h4]
  have a: "age_mask ?r" and b: "age_group_of ?r = None" using T by blast+
  have c: "\<exists>s \<in> set (with_stratify_group ex_fstr ex_validated).
      base s = ?r \<and> stratify_group s = ''nan_1.0_3.0_Healthy Weight''"
    using T by (simp only: k append.simps) blast
  obtain train_set test_set where
    s: "split_validated rev_permutation 0 (with_stratify_group ex_fstr ex_validated) =
      Inr (train_set, test_set)"
    using ex_validated_split by blast
  have d: "?r \<in> set (map base train_set) \<union> set (map base test_set)"
    using T rev_permutation_permutes s by blast
  show ?thesis using h1 h2 h3 h4 f a b c s d by blast
qed

end
